theory Spec2Isabelle
  imports Main "HOL-Library.Word" "HOL-Library.Monad_Syntax"
begin

unbundle bit_operations_syntax

section \<open>The segregated-free-list allocator (MallocLab, mm.c)\<close>

text \<open>
  A shallow embedding of the allocator of the repository: a byte-addressed memory, the
  macros of mm.c as functions on it, and every routine of mm.c as a function that takes
  the heap and returns the updated one.

  \<^item> Pointers are natural numbers (byte addresses); the null pointer is \<open>0\<close>.
  \<^item> A \<open>size_t\<close> is a natural number below \<open>2 ^ 64\<close>; where the C arithmetic on a
    \<open>size_t\<close> can wrap, the wrap-around is written out (\<open>mod 2 ^ 64\<close>).
  \<^item> An \<open>unsigned int\<close> stored in the heap is four bytes, least significant first.
  \<^item> The two list walks of mm.c (in \<open>insert_to_free_list\<close> and \<open>find_fit\<close>) end only
    when the list they follow ends, so they are partial functions: the value \<open>None\<close>
    stands for a call that never returns.
\<close>

subsection \<open>Memory and the backing region\<close>

type_synonym byte = "8 word"
type_synonym memory = "nat \<Rightarrow> byte"

text \<open>
  The global state of the program: the bytes of memory, the break and the limit of the
  backing region (the state of memlib), and the global \<open>heap_listp\<close> of mm.c.
\<close>

record heap =
  mem :: memory
  mem_brk :: nat
  mem_max_addr :: nat
  heap_listp :: nat

abbreviation NULL :: nat where "NULL \<equiv> 0"
abbreviation WSIZE :: nat where "WSIZE \<equiv> 4"
abbreviation DSIZE :: nat where "DSIZE \<equiv> 8"
abbreviation CLASS_CNT :: nat where "CLASS_CNT \<equiv> 14"
abbreviation CHUNKSIZE :: nat where "CHUNKSIZE \<equiv> 2 ^ 8"

text \<open>The number of values of a \<open>size_t\<close> and of an \<open>unsigned int\<close>.\<close>

abbreviation SIZE_T :: nat where "SIZE_T \<equiv> 2 ^ 64"
abbreviation UINT :: nat where "UINT \<equiv> 2 ^ 32"

text \<open>
  Modelled from the spec: \<open>mem_sbrk\<close> of memlib.c is not among the source files. The
  spec's HeapRegion is "a contiguous, monotonically growing memory region; supplies more
  bytes on request or signals exhaustion": a request of \<open>incr\<close> bytes returns the old
  break and moves the break up, unless the region's limit would be passed; then it
  signals exhaustion (\<open>None\<close>, the \<open>(void *)-1\<close> of C) and changes nothing.
\<close>

definition mem_sbrk :: "nat \<Rightarrow> heap \<Rightarrow> nat option \<times> heap" where
  "mem_sbrk incr h =
     (if mem_brk h + incr \<le> mem_max_addr h
      then (Some (mem_brk h), h\<lparr>mem_brk := mem_brk h + incr\<rparr>)
      else (None, h))"

subsection \<open>The macros of mm.c\<close>

definition PACK :: "nat \<Rightarrow> nat \<Rightarrow> nat" where
  "PACK sz alloc = sz OR alloc"

definition GET :: "heap \<Rightarrow> nat \<Rightarrow> nat" where
  "GET h p = unat (mem h p) + 2 ^ 8 * unat (mem h (p + 1))
     + 2 ^ 16 * unat (mem h (p + 2)) + 2 ^ 24 * unat (mem h (p + 3))"

definition PUT :: "nat \<Rightarrow> nat \<Rightarrow> heap \<Rightarrow> heap" where
  "PUT p val h = h\<lparr>mem := (mem h)
     (p := of_nat val, p + 1 := of_nat (val div 2 ^ 8),
      p + 2 := of_nat (val div 2 ^ 16), p + 3 := of_nat (val div 2 ^ 24))\<rparr>"

definition GET_SIZE :: "heap \<Rightarrow> nat \<Rightarrow> nat" where
  "GET_SIZE h p = GET h p AND 0xFFFFFFF8"

definition GET_ALLOC :: "heap \<Rightarrow> nat \<Rightarrow> nat" where
  "GET_ALLOC h p = GET h p AND 0x1"

definition HDRP :: "nat \<Rightarrow> nat" where
  "HDRP bp = bp - WSIZE"

definition FTRP :: "heap \<Rightarrow> nat \<Rightarrow> nat" where
  "FTRP h bp = bp + GET_SIZE h (HDRP bp) - DSIZE"

definition NEXT_BLKP :: "heap \<Rightarrow> nat \<Rightarrow> nat" where
  "NEXT_BLKP h bp = bp + GET_SIZE h (bp - WSIZE)"

definition PREV_BLKP :: "heap \<Rightarrow> nat \<Rightarrow> nat" where
  "PREV_BLKP h bp = bp - GET_SIZE h (bp - DSIZE)"

text \<open>
  \<open>ABS2REL\<close> subtracts \<open>heap_listp\<close> in 64-bit pointer arithmetic and keeps the low 32
  bits; \<open>REL2ABS\<close> reads the offset \<open>0\<close> as the null pointer.
\<close>

definition ABS2REL :: "heap \<Rightarrow> nat \<Rightarrow> nat" where
  "ABS2REL h abs_bp =
     (if abs_bp \<noteq> NULL then nat ((int abs_bp - int (heap_listp h)) mod 2 ^ 32) else 0)"

definition REL2ABS :: "heap \<Rightarrow> nat \<Rightarrow> nat" where
  "REL2ABS h rel_bp = (if rel_bp \<noteq> 0 then heap_listp h + rel_bp else NULL)"

definition PREDP :: "nat \<Rightarrow> nat" where
  "PREDP bp = bp"

definition SUCCP :: "nat \<Rightarrow> nat" where
  "SUCCP bp = bp + WSIZE"

definition GET_PRED :: "heap \<Rightarrow> nat \<Rightarrow> nat" where
  "GET_PRED h bp = REL2ABS h (GET h (PREDP bp))"

definition GET_SUCC :: "heap \<Rightarrow> nat \<Rightarrow> nat" where
  "GET_SUCC h bp = REL2ABS h (GET h (SUCCP bp))"

definition GET_HEAD :: "heap \<Rightarrow> nat \<Rightarrow> nat" where
  "GET_HEAD h headp = REL2ABS h (GET h headp)"

definition SET_HEAD :: "nat \<Rightarrow> nat \<Rightarrow> heap \<Rightarrow> heap" where
  "SET_HEAD headp nxt h = PUT headp (ABS2REL h nxt) h"

definition SET_PRED :: "nat \<Rightarrow> nat \<Rightarrow> heap \<Rightarrow> heap" where
  "SET_PRED bp pred h = PUT (PREDP bp) (ABS2REL h pred) h"

definition SET_SUCC :: "nat \<Rightarrow> nat \<Rightarrow> heap \<Rightarrow> heap" where
  "SET_SUCC bp succ h = PUT (SUCCP bp) (ABS2REL h succ) h"

text \<open>The library routines \<open>memcpy\<close> and \<open>memset\<close>, on \<open>n\<close> bytes.\<close>

definition memcpy :: "nat \<Rightarrow> nat \<Rightarrow> nat \<Rightarrow> heap \<Rightarrow> heap" where
  "memcpy dst src n h =
     h\<lparr>mem := (\<lambda>a. if dst \<le> a \<and> a < dst + n then mem h (src + (a - dst)) else mem h a)\<rparr>"

definition memset :: "nat \<Rightarrow> byte \<Rightarrow> nat \<Rightarrow> heap \<Rightarrow> heap" where
  "memset dst c n h =
     h\<lparr>mem := (\<lambda>a. if dst \<le> a \<and> a < dst + n then c else mem h a)\<rparr>"

subsection \<open>The free-list index\<close>

definition class_id :: "nat \<Rightarrow> nat" where
  "class_id sz =
     (if sz \<le> 8 then 0
      else if sz \<le> 16 then 1
      else if sz \<le> 24 then 2
      else if sz \<le> 32 then 3
      else if sz \<le> 64 then 4
      else if sz \<le> 128 then 5
      else if sz \<le> 256 then 6
      else if sz \<le> 512 then 7
      else if sz \<le> 1024 then 8
      else if sz \<le> 2048 then 9
      else if sz \<le> 4096 then 10
      else if sz \<le> 8192 then 11
      else if sz \<le> 16384 then 12
      else 13)"

text \<open>
  \<open>get_listp\<close>: the address of the head of the list of the class of \<open>size\<close>, which
  is \<open>heap_listp + (class_id - CLASS_CNT - 2) * WSIZE\<close>, a negative offset.
\<close>

definition get_listp :: "nat \<Rightarrow> heap \<Rightarrow> nat" where
  "get_listp sz h = heap_listp h - (CLASS_CNT + 2 - class_id sz) * WSIZE"

text \<open>
  The loop of \<open>insert_to_free_list\<close>: it walks the list while the next member is
  smaller than \<open>size\<close>, and gives the last \<open>pred\<close> and \<open>succ\<close>.
\<close>

partial_function (option) insert_walk :: "heap \<Rightarrow> nat \<Rightarrow> nat \<Rightarrow> nat \<Rightarrow> (nat \<times> nat) option" where
  "insert_walk h sz pred succ =
     (if succ \<noteq> NULL \<and> GET_SIZE h (HDRP succ) < sz
      then insert_walk h sz succ (GET_SUCC h succ)
      else Some (pred, succ))"

definition insert_to_free_list :: "nat \<Rightarrow> heap \<Rightarrow> heap option" where
  "insert_to_free_list bp h =
     (let sz = GET_SIZE h (HDRP bp);
          headp = get_listp sz h
      in do {
        (pred, succ) \<leftarrow> insert_walk h sz headp (GET_HEAD h headp);
        Some
         (if pred = headp \<and> succ = NULL then
            SET_SUCC bp NULL (SET_PRED bp NULL (SET_HEAD headp bp h))
          else if pred = headp \<and> succ \<noteq> NULL then
            SET_PRED succ bp (SET_SUCC bp succ (SET_PRED bp NULL (SET_HEAD headp bp h)))
          else if pred \<noteq> headp \<and> succ = NULL then
            SET_SUCC bp succ (SET_PRED bp pred (SET_SUCC pred bp h))
          else
            SET_PRED succ bp (SET_SUCC bp succ (SET_PRED bp pred (SET_SUCC pred bp h))))
      })"

definition remove_from_free_list :: "nat \<Rightarrow> heap \<Rightarrow> heap" where
  "remove_from_free_list bp h =
     (let sz = GET_SIZE h (HDRP bp);
          headp = get_listp sz h;
          pred = GET_PRED h bp;
          succ = GET_SUCC h bp
      in if pred = NULL \<and> succ = NULL then SET_HEAD headp NULL h
         else if pred = NULL \<and> succ \<noteq> NULL then SET_PRED succ NULL (SET_HEAD headp succ h)
         else if pred \<noteq> NULL \<and> succ = NULL then SET_SUCC pred NULL h
         else SET_PRED succ pred (SET_SUCC pred succ h))"

text \<open>
  \<open>find_fit\<close>: the inner loop follows one list and returns the first member of size
  at least \<open>asize\<close> (or \<open>NULL\<close> at the end of the list); the outer loop goes from the
  head of the class of \<open>asize\<close> up to the last head.
\<close>

partial_function (option) find_fit_list :: "heap \<Rightarrow> nat \<Rightarrow> nat \<Rightarrow> nat option" where
  "find_fit_list h asize bp =
     (if bp \<noteq> NULL
      then (if GET_SIZE h (HDRP bp) \<ge> asize then Some bp
            else find_fit_list h asize (GET_SUCC h bp))
      else Some NULL)"

partial_function (option) find_fit_heads :: "heap \<Rightarrow> nat \<Rightarrow> nat \<Rightarrow> nat option" where
  "find_fit_heads h asize headp =
     (if headp \<noteq> heap_listp h - 2 * WSIZE
      then do {
        bp \<leftarrow> find_fit_list h asize (GET_HEAD h headp);
        if bp \<noteq> NULL then Some bp else find_fit_heads h asize (headp + WSIZE)
      }
      else Some NULL)"

definition find_fit :: "nat \<Rightarrow> heap \<Rightarrow> nat option" where
  "find_fit asize h = find_fit_heads h asize (get_listp asize h)"

subsection \<open>Coalescing, placement and heap extension\<close>

definition coalesce :: "nat \<Rightarrow> heap \<Rightarrow> (nat \<times> heap) option" where
  "coalesce bp h =
     (let prev_alloc = GET_ALLOC h (HDRP (PREV_BLKP h bp));
          next_alloc = GET_ALLOC h (HDRP (NEXT_BLKP h bp));
          sz = GET_SIZE h (HDRP bp);
          prev_bp = PREV_BLKP h bp;
          next_bp = NEXT_BLKP h bp
      in if prev_alloc \<noteq> 0 \<and> next_alloc \<noteq> 0 then Some (bp, h)
         else if prev_alloc \<noteq> 0 \<and> next_alloc = 0 then
           (let h1 = remove_from_free_list bp h;
                h2 = remove_from_free_list next_bp h1;
                sz = sz + GET_SIZE h2 (HDRP (NEXT_BLKP h2 bp));
                h3 = PUT (HDRP bp) (PACK sz 0) h2;
                h4 = PUT (FTRP h3 bp) (PACK sz 0) h3
            in do { h5 \<leftarrow> insert_to_free_list bp h4; Some (bp, h5) })
         else if prev_alloc = 0 \<and> next_alloc \<noteq> 0 then
           (let h1 = remove_from_free_list bp h;
                h2 = remove_from_free_list prev_bp h1;
                sz = sz + GET_SIZE h2 (HDRP (PREV_BLKP h2 bp));
                h3 = PUT (HDRP (PREV_BLKP h2 bp)) (PACK sz 0) h2;
                h4 = PUT (FTRP h3 bp) (PACK sz 0) h3;
                bp = PREV_BLKP h4 bp
            in do { h5 \<leftarrow> insert_to_free_list bp h4; Some (bp, h5) })
         else
           (let h1 = remove_from_free_list prev_bp h;
                h2 = remove_from_free_list bp h1;
                h3 = remove_from_free_list next_bp h2;
                sz = sz + (GET_SIZE h3 (HDRP (PREV_BLKP h3 bp))
                               + GET_SIZE h3 (HDRP (NEXT_BLKP h3 bp))) mod UINT;
                h4 = PUT (HDRP (PREV_BLKP h3 bp)) (PACK sz 0) h3;
                h5 = PUT (FTRP h4 (NEXT_BLKP h4 bp)) (PACK sz 0) h4;
                bp = PREV_BLKP h5 bp
            in do { h6 \<leftarrow> insert_to_free_list bp h5; Some (bp, h6) }))"

text \<open>The difference of two \<open>size_t\<close> values, as C computes it.\<close>

definition size_t_sub :: "nat \<Rightarrow> nat \<Rightarrow> nat" where
  "size_t_sub a b = nat ((int a - int b) mod 2 ^ 64)"

definition place :: "nat \<Rightarrow> nat \<Rightarrow> heap \<Rightarrow> (nat \<times> heap) option" where
  "place bp asize h =
     (let csize = GET_SIZE h (HDRP bp);
          h1 = remove_from_free_list bp h
      in if size_t_sub csize asize \<ge> 2 * DSIZE then
           (let h2 = PUT (HDRP bp) (PACK asize 1) h1;
                h3 = PUT (FTRP h2 bp) (PACK asize 1) h2;
                free_bp = NEXT_BLKP h3 bp;
                h4 = PUT (HDRP free_bp) (PACK (size_t_sub csize asize) 0) h3;
                h5 = PUT (FTRP h4 free_bp) (PACK (size_t_sub csize asize) 0) h4
            in do { h6 \<leftarrow> insert_to_free_list free_bp h5; Some (bp, h6) })
         else
           (let h2 = PUT (HDRP bp) (PACK csize 1) h1;
                h3 = PUT (FTRP h2 bp) (PACK csize 1) h2
            in Some (bp, h3)))"

definition extend_heap :: "nat \<Rightarrow> heap \<Rightarrow> (nat \<times> heap) option" where
  "extend_heap words h =
     (let sz = (if words mod 2 \<noteq> 0 then (words + 1) * WSIZE else words * WSIZE) mod SIZE_T
      in case mem_sbrk sz h of
           (None, h0) \<Rightarrow> Some (NULL, h0)
         | (Some bp, h0) \<Rightarrow>
           (let h1 = PUT (HDRP bp) (PACK sz 0) h0;
                h2 = PUT (FTRP h1 bp) (PACK sz 0) h1;
                h3 = SET_PRED bp NULL h2;
                h4 = SET_SUCC bp NULL h3;
                h5 = PUT (HDRP (NEXT_BLKP h4 bp)) (PACK 0 1) h4
            in do { h6 \<leftarrow> insert_to_free_list bp h5; coalesce bp h6 }))"

subsection \<open>The public operations\<close>

text \<open>
  \<open>mm_init\<close> returns \<open>0\<close> or \<open>-1\<close>. When the first request to the region fails,
  \<open>heap_listp\<close> has been assigned \<open>(void *)-1\<close>.
\<close>

definition mm_init :: "heap \<Rightarrow> (int \<times> heap) option" where
  "mm_init h =
     (case mem_sbrk ((CLASS_CNT + 4) * WSIZE) h of
        (None, h0) \<Rightarrow> Some (- 1, h0\<lparr>heap_listp := SIZE_T - 1\<rparr>)
      | (Some p, h0) \<Rightarrow>
        (let h1 = h0\<lparr>heap_listp := p\<rparr>;
             h2 = fold (\<lambda>class_id h. SET_HEAD (heap_listp h + class_id * WSIZE) NULL h)
                    [0 ..< CLASS_CNT] h1;
             h3 = h2\<lparr>heap_listp := heap_listp h2 + CLASS_CNT * WSIZE\<rparr>;
             h4 = PUT (heap_listp h3) 0 h3;
             h5 = PUT (heap_listp h4 + 1 * WSIZE) (PACK DSIZE 1) h4;
             h6 = PUT (heap_listp h5 + 2 * WSIZE) (PACK DSIZE 1) h5;
             h7 = PUT (heap_listp h6 + 3 * WSIZE) (PACK 0 1) h6;
             h8 = h7\<lparr>heap_listp := heap_listp h7 + 2 * WSIZE\<rparr>
         in do {
           (bp, h9) \<leftarrow> extend_heap (CHUNKSIZE div WSIZE) h8;
           if bp = NULL then Some (- 1, h9) else Some (0, h9)
         }))"

text \<open>The adjusted block size of \<open>malloc\<close>; \<open>size + DSIZE + (DSIZE - 1)\<close> is a \<open>size_t\<close>.\<close>

definition adjusted_size :: "nat \<Rightarrow> nat" where
  "adjusted_size sz =
     (if sz \<le> DSIZE then 2 * DSIZE
      else DSIZE * (((sz + DSIZE + (DSIZE - 1)) mod SIZE_T) div DSIZE))"

definition malloc :: "nat \<Rightarrow> heap \<Rightarrow> (nat \<times> heap) option" where
  "malloc sz h =
     (if sz = 0 then Some (NULL, h)
      else
        (let asize = adjusted_size sz in do {
           bp \<leftarrow> find_fit asize h;
           if bp \<noteq> NULL then do { (r, h1) \<leftarrow> place bp asize h; Some (bp, h1) }
           else
             (let extendsize = max asize CHUNKSIZE in do {
                (bp, h1) \<leftarrow> extend_heap (extendsize div WSIZE) h;
                if bp = NULL then Some (NULL, h1)
                else do { (r, h2) \<leftarrow> place bp asize h1; Some (bp, h2) }
              })
         }))"

definition free :: "nat \<Rightarrow> heap \<Rightarrow> heap option" where
  "free bp h =
     (if bp = NULL then Some h
      else
        (let sz = GET_SIZE h (HDRP bp) in do {
           h0 \<leftarrow> (if heap_listp h = NULL then map_option snd (mm_init h) else Some h);
           let h1 = PUT (HDRP bp) (PACK sz 0) h0;
           let h2 = PUT (FTRP h1 bp) (PACK sz 0) h1;
           let h3 = SET_PRED bp NULL h2;
           let h4 = SET_SUCC bp NULL h3;
           h5 \<leftarrow> insert_to_free_list bp h4;
           (r, h6) \<leftarrow> coalesce bp h5;
           Some h6
         }))"

definition realloc :: "nat \<Rightarrow> nat \<Rightarrow> heap \<Rightarrow> (nat \<times> heap) option" where
  "realloc oldptr sz h =
     (if sz = 0 then do { h1 \<leftarrow> free oldptr h; Some (NULL, h1) }
      else if oldptr = NULL then malloc sz h
      else do {
        (newptr, h1) \<leftarrow> malloc sz h;
        if newptr = NULL then Some (NULL, h1)
        else
          (let oldsize = GET_SIZE h1 (HDRP oldptr);
               oldsize = (if sz < oldsize then sz else oldsize);
               h2 = memcpy newptr oldptr oldsize h1
           in do { h3 \<leftarrow> free oldptr h2; Some (newptr, h3) })
      })"

text \<open>
  \<open>calloc\<close> passes the result of \<open>malloc\<close> to \<open>memset\<close> without a test. Writing
  \<open>bytes > 0\<close> bytes through the null pointer is a fault of the program, which the
  model returns as the value \<open>Inl NullWrite\<close>.
\<close>

datatype fault = NullWrite

definition calloc :: "nat \<Rightarrow> nat \<Rightarrow> heap \<Rightarrow> (fault + nat \<times> heap) option" where
  "calloc nmemb sz h =
     (let bytes = (nmemb * sz) mod SIZE_T in do {
        (newptr, h1) \<leftarrow> malloc bytes h;
        if newptr = NULL \<and> bytes \<noteq> 0 then Some (Inl NullWrite)
        else Some (Inr (newptr, memset newptr 0 bytes h1))
      })"

subsection \<open>The size adjustment as the specification words it\<close>



section \<open>The heap as a list of blocks and the index as lists of free blocks\<close>

text \<open>
  The verification describes a heap by two ghost values. The first is the list of its
  blocks, in address order, each a triple (block pointer, size, allocated bit);
  \<open>chain h p bs q\<close> says that the blocks \<open>bs\<close> tile the addresses from \<open>p\<close> to \<open>q\<close> and
  that the header and the footer of each of them hold its size and its bit.
\<close>

type_synonym blk = "nat \<times> nat \<times> nat"

fun chain :: "heap \<Rightarrow> nat \<Rightarrow> blk list \<Rightarrow> nat \<Rightarrow> bool" where
  "chain h p [] q = (p = q)"
| "chain h p ((b, s, a) # bs) q =
     (b = p \<and> 16 \<le> s \<and> 8 dvd s \<and> a < 2
      \<and> GET h (b - 4) = s + a \<and> GET h (b + s - 8) = s + a
      \<and> chain h (b + s) bs q)"

text \<open>
  The second is, for every size class, the list of the free blocks on its list, each
  with its size. \<open>seg h prev cur xs nxt\<close> says that following the successor fields
  from \<open>cur\<close> visits exactly \<open>xs\<close> and then reaches \<open>nxt\<close>, and that the predecessor
  field of every member holds the member before it (\<open>prev\<close> for the first).
\<close>

fun seg :: "heap \<Rightarrow> nat \<Rightarrow> nat \<Rightarrow> nat list \<Rightarrow> nat \<Rightarrow> bool" where
  "seg h prev cur [] nxt = (cur = nxt)"
| "seg h prev cur (x # xs) nxt =
     (cur = x \<and> x \<noteq> NULL \<and> GET_PRED h x = prev \<and> seg h x (GET_SUCC h x) xs nxt)"

definition list_head :: "heap \<Rightarrow> nat \<Rightarrow> nat" where
  "list_head h c = heap_listp h - (CLASS_CNT + 2 - c) * WSIZE"

text \<open>
  The fixed part of the heap: the 14 heads and the padding word lie below the prologue,
  whose footer \<open>heap_listp\<close> points at; the epilogue header is the last word below the
  break; the break is less than \<open>2 ^ 32\<close> bytes above it, so that every size and every offset
  from \<open>heap_listp\<close> fits the four bytes of a tag or a link.
\<close>

definition region :: "heap \<Rightarrow> bool" where
  "region h =
     (64 \<le> heap_listp h \<and> heap_listp h + 8 \<le> mem_brk h \<and> mem_brk h \<le> mem_max_addr h
      \<and> mem_brk h < heap_listp h + 2 ^ 32
      \<and> GET h (heap_listp h - 4) = 9 \<and> GET h (heap_listp h) = 9
      \<and> GET h (mem_brk h - 4) = 1)"

definition lists :: "heap \<Rightarrow> blk list \<Rightarrow> (nat \<Rightarrow> (nat \<times> nat) list) \<Rightarrow> bool" where
  "lists h bs fl =
     (\<forall>c. (c < CLASS_CNT \<longrightarrow> seg h NULL (GET_HEAD h (list_head h c)) (map fst (fl c)) NULL)
          \<and> distinct (map fst (fl c)) \<and> sorted (map snd (fl c))
          \<and> (\<forall>(x, s) \<in> set (fl c). (x, s, 0) \<in> set bs \<and> class_id s = c))"

text \<open>
  \<open>winv\<close> is what every routine needs of the heap it starts from; \<open>ginv\<close> adds what
  holds between two public operations: every free block is on the list of its class,
  and no two neighbours are both free.
\<close>

definition winv :: "heap \<Rightarrow> blk list \<Rightarrow> (nat \<Rightarrow> (nat \<times> nat) list) \<Rightarrow> bool" where
  "winv h bs fl = (region h \<and> chain h (heap_listp h + 8) bs (mem_brk h) \<and> lists h bs fl)"

definition complete :: "blk list \<Rightarrow> (nat \<Rightarrow> (nat \<times> nat) list) \<Rightarrow> bool" where
  "complete bs fl = (\<forall>(b, s, a) \<in> set bs. a = 0 \<longrightarrow> (b, s) \<in> set (fl (class_id s)))"

fun no_adj :: "blk list \<Rightarrow> bool" where
  "no_adj ((b, s, a) # (b', s', a') # bs) = (\<not> (a = 0 \<and> a' = 0) \<and> no_adj ((b', s', a') # bs))"
| "no_adj bs = True"

definition ginv :: "heap \<Rightarrow> blk list \<Rightarrow> (nat \<Rightarrow> (nat \<times> nat) list) \<Rightarrow> bool" where
  "ginv h bs fl = (winv h bs fl \<and> complete bs fl \<and> no_adj bs)"

text \<open>Insertion into and removal from a list kept in ascending order of size.\<close>

definition ins :: "nat \<times> nat \<Rightarrow> (nat \<times> nat) list \<Rightarrow> (nat \<times> nat) list" where
  "ins e xs = takeWhile (\<lambda>y. snd y < snd e) xs @ e # dropWhile (\<lambda>y. snd y < snd e) xs"

definition fl_insert :: "nat \<times> nat \<Rightarrow> (nat \<Rightarrow> (nat \<times> nat) list) \<Rightarrow> nat \<Rightarrow> (nat \<times> nat) list" where
  "fl_insert e fl = fl(class_id (snd e) := ins e (fl (class_id (snd e))))"

definition fl_remove :: "nat \<times> nat \<Rightarrow> (nat \<Rightarrow> (nat \<times> nat) list) \<Rightarrow> nat \<Rightarrow> (nat \<times> nat) list" where
  "fl_remove e fl = fl(class_id (snd e) := remove1 e (fl (class_id (snd e))))"

text \<open>
  \<open>keeps bs h h'\<close>: the step from \<open>h\<close> to \<open>h'\<close> leaves the limit of the region and
  \<open>heap_listp\<close> alone, and every byte of the payload of every allocated block of \<open>bs\<close>.
\<close>

definition keeps :: "blk list \<Rightarrow> heap \<Rightarrow> heap \<Rightarrow> bool" where
  "keeps bs h h' =
     (heap_listp h' = heap_listp h \<and> mem_max_addr h' = mem_max_addr h
      \<and> (\<forall>(b, s, a) \<in> set bs. a = 1 \<longrightarrow> (\<forall>x. b \<le> x \<and> x + 8 < b + s \<longrightarrow> mem h' x = mem h x)))"

text \<open>
  The search of \<open>find_fit\<close> on the ghost lists: the lists of the classes \<open>c\<close>, \<open>c + 1\<close>,
  ... one after the other, and of these blocks the first of size at least \<open>asize\<close>
  (\<open>NULL\<close> when there is none).
\<close>

definition fits :: "(nat \<Rightarrow> (nat \<times> nat) list) \<Rightarrow> nat \<Rightarrow> nat \<Rightarrow> (nat \<times> nat) list" where
  "fits fl asize c = filter (\<lambda>y. asize \<le> snd y) (concat (map fl [c ..< CLASS_CNT]))"

definition first_fit :: "(nat \<Rightarrow> (nat \<times> nat) list) \<Rightarrow> nat \<Rightarrow> nat \<Rightarrow> nat" where
  "first_fit fl asize c = (case fits fl asize c of [] \<Rightarrow> NULL | y # ys \<Rightarrow> fst y)"

text \<open>
  The search as the specification words it: go to the first class, from the class of
  \<open>asize\<close> upwards, whose list is not empty, and take the first block of size at least
  \<open>asize\<close> of that list (\<open>NULL\<close> when the list has none).
\<close>

definition spec_find :: "(nat \<Rightarrow> (nat \<times> nat) list) \<Rightarrow> nat \<Rightarrow> nat" where
  "spec_find fl asize =
     (case filter (\<lambda>c. fl c \<noteq> []) [class_id asize ..< CLASS_CNT] of
        [] \<Rightarrow> NULL
      | c # cs \<Rightarrow> (case filter (\<lambda>y. asize \<le> snd y) (fl c) of [] \<Rightarrow> NULL | y # ys \<Rightarrow> fst y))"

section \<open>What a walk through the heap sees\<close>

text \<open>
  \<open>heap_walk\<close> is the first loop of \<open>mm_checkheap\<close>: from \<open>heap_listp\<close>, that is from the
  prologue, it goes from block to block with \<open>NEXT_BLKP\<close> until it reads a header of
  size 0, and gives the blocks it has visited. \<open>list_walk\<close> follows the successors of a
  list from its head to the null pointer, as \<open>find_fit\<close> does. A walk that never ends has
  no value.
\<close>

partial_function (option) heap_walk :: "heap \<Rightarrow> nat \<Rightarrow> nat list option" where
  "heap_walk h bp =
     (if GET_SIZE h (HDRP bp) \<noteq> 0
      then do { r \<leftarrow> heap_walk h (NEXT_BLKP h bp); Some (bp # r) }
      else Some [])"

partial_function (option) list_walk :: "heap \<Rightarrow> nat \<Rightarrow> nat list option" where
  "list_walk h bp =
     (if bp \<noteq> NULL
      then do { r \<leftarrow> list_walk h (GET_SUCC h bp); Some (bp # r) }
      else Some [])"

text \<open>Header and footer of every block of the walk give the same size and the same bit.\<close>

definition tags_agree :: "heap \<Rightarrow> bool" where
  "tags_agree h =
     (case heap_walk h (heap_listp h) of
        None \<Rightarrow> False
      | Some bl \<Rightarrow>
          list_all (\<lambda>bp. GET_SIZE h (HDRP bp) = GET_SIZE h (FTRP h bp)
                     \<and> GET_ALLOC h (HDRP bp) = GET_ALLOC h (FTRP h bp)) bl)"

text \<open>Two blocks that follow each other in the walk and are both free.\<close>

fun free_pair :: "heap \<Rightarrow> nat list \<Rightarrow> bool" where
  "free_pair h (a # b # r) =
     (GET_ALLOC h (HDRP a) = 0 \<and> GET_ALLOC h (HDRP b) = 0 \<or> free_pair h (b # r))"
| "free_pair h r = False"

definition coalesced :: "heap \<Rightarrow> bool" where
  "coalesced h =
     (case heap_walk h (heap_listp h) of None \<Rightarrow> False | Some bl \<Rightarrow> \<not> free_pair h bl)"

text \<open>
  The list that starts at \<open>head\<close> is doubly linked: the head has no predecessor, the
  predecessor of the successor of a member is the member, and so is the successor of
  its predecessor.
\<close>

definition linked_list :: "heap \<Rightarrow> nat \<Rightarrow> bool" where
  "linked_list h head =
     ((head = NULL \<or> GET_PRED h head = NULL)
      \<and> (case list_walk h head of
            None \<Rightarrow> False
          | Some l \<Rightarrow>
              list_all (\<lambda>b. (GET_SUCC h b = NULL \<or> GET_PRED h (GET_SUCC h b) = b)
                         \<and> (GET_PRED h b = NULL \<or> GET_SUCC h (GET_PRED h b) = b)) l))"

definition linked :: "heap \<Rightarrow> bool" where
  "linked h = list_all (\<lambda>c. linked_list h (GET_HEAD h (list_head h c))) [0 ..< CLASS_CNT]"

text \<open>The members of the list of class \<open>c\<close>, each with the size in its header.\<close>

definition free_lists :: "heap \<Rightarrow> nat \<Rightarrow> (nat \<times> nat) list" where
  "free_lists h c =
     (case list_walk h (GET_HEAD h (list_head h c)) of
        None \<Rightarrow> []
      | Some l \<Rightarrow> map (\<lambda>b. (b, GET_SIZE h (HDRP b))) l)"

section \<open>Runs of the allocator\<close>

text \<open>
  \<open>reach S h L\<close>: the heap \<open>h\<close> is what a program finds between two calls, after a
  successful \<open>mm_init\<close> and any number of calls of \<open>malloc\<close>, \<open>free\<close>, \<open>realloc\<close> and
  \<open>calloc\<close>. \<open>L\<close> gives, for every pointer the program holds, the number of bytes it
  asked for; the program frees and reallocates only pointers it holds, and writes only
  into the bytes it asked for. No request is of more than \<open>S\<close> bytes. The region is
  smaller than \<open>2 ^ 32\<close> bytes, so that every offset fits an \<open>unsigned int\<close>.
\<close>

inductive reach :: "nat \<Rightarrow> heap \<Rightarrow> (nat \<Rightarrow> nat option) \<Rightarrow> bool" for S :: nat where
  r_init: "mm_init h0 = Some (0, h) \<Longrightarrow> mem_max_addr h0 < mem_brk h0 + 2 ^ 32 \<Longrightarrow>
    reach S h (\<lambda>p. None)"
| r_malloc: "reach S h L \<Longrightarrow> sz \<le> S \<Longrightarrow> malloc sz h = Some (p, h') \<Longrightarrow>
    reach S h' (if p = NULL then L else L(p := Some sz))"
| r_free: "reach S h L \<Longrightarrow> L p = Some n \<Longrightarrow> free p h = Some h' \<Longrightarrow>
    reach S h' (L(p := None))"
| r_free_null: "reach S h L \<Longrightarrow> free NULL h = Some h' \<Longrightarrow> reach S h' L"
| r_realloc: "reach S h L \<Longrightarrow> L p = Some n \<Longrightarrow> sz \<le> S \<Longrightarrow>
    realloc p sz h = Some (q, h') \<Longrightarrow>
    reach S h' (if sz = 0 then L(p := None) else if q = NULL then L
                else (L(p := None))(q := Some sz))"
| r_realloc_null: "reach S h L \<Longrightarrow> sz \<le> S \<Longrightarrow> realloc NULL sz h = Some (q, h') \<Longrightarrow>
    reach S h' (if q = NULL then L else L(q := Some sz))"
| r_calloc: "reach S h L \<Longrightarrow> (nmemb * sz) mod SIZE_T \<le> S \<Longrightarrow>
    calloc nmemb sz h = Some (Inr (q, h')) \<Longrightarrow>
    reach S h' (if q = NULL then L else L(q := Some ((nmemb * sz) mod SIZE_T)))"
| r_write: "reach S h L \<Longrightarrow> L p = Some n \<Longrightarrow> p \<le> a \<Longrightarrow> a < p + n \<Longrightarrow>
    reach S (h\<lparr>mem := (mem h)(a := v)\<rparr>) L"

text \<open>
  What holds of every heap of a run whose requests are small enough: the blocks and the
  lists are those of some \<open>bs\<close> and \<open>fl\<close>, and every pointer the program holds is the
  payload of an allocated block with room for the bytes asked for.
\<close>

definition heap_ok :: "heap \<Rightarrow> (nat \<Rightarrow> nat option) \<Rightarrow> bool" where
  "heap_ok h L =
     (\<exists>bs fl. ginv h bs fl \<and> mem_max_addr h < heap_listp h + 2 ^ 32
        \<and> (\<forall>p n. L p = Some n \<longrightarrow> (\<exists>s. (p, s, 1) \<in> set bs \<and> n + 8 \<le> s)))"

section \<open>An example region\<close>

text \<open>
  A region of 1024 bytes from the address 4096, all bytes 0, and the heap that
  \<open>mm_init\<close> makes of it.
\<close>

definition heap0 :: heap where
  "heap0 = \<lparr>mem = (\<lambda>a. 0), mem_brk = 4096, mem_max_addr = 5120, heap_listp = NULL\<rparr>"

definition heap1 :: heap where
  "heap1 = snd (the (mm_init heap0))"

section \<open>Words in a byte memory\<close>

lemma and_size_mask: "x < 2 ^ 32 \<Longrightarrow> x AND (0xFFFFFFF8 :: nat) = 8 * (x div 8)"
proof -
  assume x: "x < 2 ^ 32"
  have m: "(0xFFFFFFF8 :: nat) = push_bit 3 (mask 29)"
    by (simp add: mask_eq_exp_minus_1 push_bit_eq_mult)
  have "x AND push_bit 3 (mask 29) = push_bit 3 (drop_bit 3 x)"
  proof (rule bit_eqI)
    fix k
    have "bit x k \<Longrightarrow> k < 32"
      using x by (metis bit_take_bit_iff take_bit_nat_eq_self_iff)
    then show "bit (x AND push_bit 3 (mask 29)) k = bit (push_bit 3 (drop_bit 3 x)) k"
      by (auto simp add: bit_simps)
  qed
  then show ?thesis
    by (simp add: m push_bit_eq_mult drop_bit_eq_div)
qed

lemma and_one_nat: "x AND (1 :: nat) = x mod 2"
  by (simp add: and_one_eq)

lemma or_tag: "8 dvd s \<Longrightarrow> a < 8 \<Longrightarrow> s OR a = s + (a :: nat)"
proof -
  assume "8 dvd s" "a < 8"
  then obtain k where s: "s = push_bit 3 k"
    by (auto simp: push_bit_eq_mult dvd_def mult.commute)
  have a: "a = take_bit 3 a"
    using \<open>a < 8\<close> by (simp add: take_bit_nat_eq_self)
  have "push_bit 3 k OR take_bit 3 a = push_bit 3 k + take_bit 3 a"
    by (rule disjunctive_add [symmetric]) (auto simp: bit_simps)
  then show ?thesis using s a by simp
qed

lemma unat_byte: "unat (of_nat v :: byte) = v mod 256"
  by (simp add: unat_of_nat)

lemma GET_lt: "GET h p < 2 ^ 32"
proof -
  have b: "\<And>w :: byte. unat w < 256"
  proof -
    fix w :: byte
    show "unat w < 256" using unsigned_less [of w] by simp
  qed
  show ?thesis
    unfolding GET_def
    using b [of "mem h p"] b [of "mem h (p + 1)"] b [of "mem h (p + 2)"] b [of "mem h (p + 3)"]
    by simp
qed

lemma bytes_mod: "v mod 256 + 256 * (v div 256 mod 256) + 65536 * (v div 65536 mod 256)
    + 16777216 * (v div 16777216 mod 256) = (v :: nat) mod 4294967296"
proof -
  have 1: "v div 65536 = v div 256 div 256" by (simp add: div_mult2_eq)
  have 2: "v div 16777216 = v div 256 div 256 div 256" by (simp add: div_mult2_eq)
  show ?thesis
    unfolding 1 2
    by (simp add: mod_mult2_eq [of v 256 16777216, simplified]
        mod_mult2_eq [of "v div 256" 256 65536, simplified]
        mod_mult2_eq [of "v div 256 div 256" 256 256, simplified])
qed

lemma GET_PUT_same: "GET (PUT p v h) p = v mod 2 ^ 32"
  by (simp add: GET_def PUT_def unat_byte bytes_mod)

lemma GET_PUT_other: "p + 4 \<le> q \<or> q + 4 \<le> p \<Longrightarrow> GET (PUT p v h) q = GET h q"
  by (auto simp add: GET_def PUT_def)

lemma GET_frame: "(\<And>a. q \<le> a \<Longrightarrow> a < q + 4 \<Longrightarrow> mem h' a = mem h a) \<Longrightarrow> GET h' q = GET h q"
  by (simp add: GET_def)

lemma mem_PUT_other: "a < p \<or> p + 4 \<le> a \<Longrightarrow> mem (PUT p v h) a = mem h a"
  by (auto simp add: PUT_def)

lemma PUT_fields [simp]:
  "heap_listp (PUT p v h) = heap_listp h"
  "mem_brk (PUT p v h) = mem_brk h"
  "mem_max_addr (PUT p v h) = mem_max_addr h"
  by (simp_all add: PUT_def)

lemma GET_SIZE_eq: "GET_SIZE h p = 8 * (GET h p div 8)"
  unfolding GET_SIZE_def by (rule and_size_mask [OF GET_lt])

lemma GET_ALLOC_eq: "GET_ALLOC h p = GET h p mod 2"
  by (simp add: GET_ALLOC_def and_one_nat)

section \<open>Block chains\<close>

lemma chain_append:
  "chain h p (xs @ ys) q \<longleftrightarrow> (\<exists>r. chain h p xs r \<and> chain h r ys q)"
  by (induction xs arbitrary: p) auto

lemma chain_le: "chain h p bs q \<Longrightarrow> p \<le> q"
proof (induction bs arbitrary: p)
  case Nil
  then show ?case by simp
next
  case (Cons x bs)
  obtain b s a where x: "x = (b, s, a)" by (cases x)
  from Cons.prems x have "chain h (b + s) bs q" and "b = p" by auto
  with Cons.IH [of "b + s"] show ?case by simp
qed

lemma chain_mem:
  "chain h p bs q \<Longrightarrow> (b, s, a) \<in> set bs \<Longrightarrow>
     p \<le> b \<and> b + s \<le> q \<and> 16 \<le> s \<and> 8 dvd s \<and> a < 2
     \<and> GET h (b - 4) = s + a \<and> GET h (b + s - 8) = s + a"
proof (induction bs arbitrary: p)
  case Nil
  then show ?case by simp
next
  case (Cons x bs)
  obtain b' s' a' where x: "x = (b', s', a')" by (cases x)
  from Cons.prems x have c: "chain h (b' + s') bs q" and b': "b' = p" by auto
  show ?case
  proof (cases "(b, s, a) = x")
    case True
    with Cons.prems x chain_le [OF c] show ?thesis by auto
  next
    case False
    with Cons.prems have "(b, s, a) \<in> set bs" by auto
    from Cons.IH [OF c this] b' show ?thesis by auto
  qed
qed

lemma chain_disj:
  "chain h p bs q \<Longrightarrow> (b, s, a) \<in> set bs \<Longrightarrow> (b', s', a') \<in> set bs \<Longrightarrow>
     (b, s, a) = (b', s', a') \<or> b + s \<le> b' \<or> b' + s' \<le> b"
proof (induction bs arbitrary: p)
  case Nil
  then show ?case by simp
next
  case (Cons x bs)
  obtain b0 s0 a0 where x: "x = (b0, s0, a0)" by (cases x)
  from Cons.prems x have c: "chain h (b0 + s0) bs q" by auto
  consider "(b, s, a) = x" "(b', s', a') = x" | "(b, s, a) = x" "(b', s', a') \<in> set bs"
    | "(b, s, a) \<in> set bs" "(b', s', a') = x" | "(b, s, a) \<in> set bs" "(b', s', a') \<in> set bs"
    using Cons.prems by auto
  then show ?case
  proof cases
    case 1
    then show ?thesis by simp
  next
    case 2
    with chain_mem [OF c 2(2)] x show ?thesis by auto
  next
    case 3
    with chain_mem [OF c 3(1)] x show ?thesis by auto
  next
    case 4
    from Cons.IH [OF c 4] show ?thesis .
  qed
qed

lemma chain_same_start:
  "chain h p bs q \<Longrightarrow> (b, s, a) \<in> set bs \<Longrightarrow> (b, s', a') \<in> set bs \<Longrightarrow> s' = s \<and> a' = a"
  using chain_disj [of h p bs q b s a b s' a'] chain_mem [of h p bs q b s a]
    chain_mem [of h p bs q b s' a']
  by auto

lemma chain_cong_ball:
  "\<forall>(b, s, a) \<in> set bs. GET h' (b - 4) = GET h (b - 4) \<and> GET h' (b + s - 8) = GET h (b + s - 8) \<Longrightarrow>
   chain h' p bs q = chain h p bs q"
  by (induction bs arbitrary: p) auto

lemma chain_cong:
  "(\<And>b s a. (b, s, a) \<in> set bs \<Longrightarrow>
      GET h' (b - 4) = GET h (b - 4) \<and> GET h' (b + s - 8) = GET h (b + s - 8)) \<Longrightarrow>
   chain h' p bs q = chain h p bs q"
  by (rule chain_cong_ball) auto

lemma chain_frame:
  assumes "chain h p bs q" and "4 \<le> p"
    and "\<And>a. p \<le> a + 4 \<Longrightarrow> a + 4 < q \<Longrightarrow> mem h' a = mem h a"
  shows "chain h' p bs q"
proof -
  have "chain h' p bs q = chain h p bs q"
  proof (rule chain_cong)
    fix b s a
    assume m: "(b, s, a) \<in> set bs"
    note g = chain_mem [OF assms(1) m]
    have "GET h' (b - 4) = GET h (b - 4)"
      by (rule GET_frame) (use g assms(2) in \<open>auto intro!: assms(3)\<close>)
    moreover have "GET h' (b + s - 8) = GET h (b + s - 8)"
      by (rule GET_frame) (use g assms(2) in \<open>auto intro!: assms(3)\<close>)
    ultimately show "GET h' (b - 4) = GET h (b - 4) \<and> GET h' (b + s - 8) = GET h (b + s - 8)" ..
  qed
  with assms(1) show ?thesis by simp
qed

lemma chain_split:
  "chain h p bs q \<Longrightarrow> (b, s, a) \<in> set bs \<Longrightarrow>
     \<exists>pre post. bs = pre @ (b, s, a) # post \<and> chain h p pre b \<and> chain h (b + s) post q"
proof -
  assume c: "chain h p bs q" and m: "(b, s, a) \<in> set bs"
  from split_list [OF m] obtain pre post where bs: "bs = pre @ (b, s, a) # post" by blast
  from c [unfolded bs chain_append] obtain r where "chain h p pre r" "chain h r ((b, s, a) # post) q"
    by blast
  then have "chain h p pre b \<and> chain h (b + s) post q" by auto
  with bs show ?thesis by blast
qed

lemma chain_mid:
  "chain h p (pre @ (b, s, a) # post) q \<longleftrightarrow>
     chain h p pre b \<and> 16 \<le> s \<and> 8 dvd s \<and> a < 2
     \<and> GET h (b - 4) = s + a \<and> GET h (b + s - 8) = s + a \<and> chain h (b + s) post q"
  by (auto simp: chain_append)

lemma chain_last:
  "chain h p (pre @ [(b, s, a)]) q \<Longrightarrow> b + s = q"
  by (auto simp: chain_append)

lemma chain_distinct: "chain h p bs q \<Longrightarrow> distinct (map fst bs)"
proof (induction bs arbitrary: p)
  case Nil
  then show ?case by simp
next
  case (Cons x bs)
  obtain b s a where x: "x = (b, s, a)" by (cases x)
  from Cons.prems x have c: "chain h (b + s) bs q" and s: "16 \<le> s" by auto
  have "b \<notin> fst ` set bs"
  proof
    assume "b \<in> fst ` set bs"
    then obtain s' a' where "(b, s', a') \<in> set bs" by force
    from chain_mem [OF c this] s show False by simp
  qed
  with Cons.IH [OF c] x show ?case by simp
qed

section \<open>Links\<close>

lemma ABS2REL_lt: "ABS2REL h v < 2 ^ 32"
  unfolding ABS2REL_def
  by (auto simp: nat_less_iff) 

lemma ABS2REL_NULL [simp]: "ABS2REL h NULL = 0"
  by (simp add: ABS2REL_def)

lemma REL2ABS_0 [simp]: "REL2ABS h 0 = NULL"
  by (simp add: REL2ABS_def)

lemma REL2ABS_ABS2REL:
  "heap_listp h < v \<Longrightarrow> v < heap_listp h + 2 ^ 32 \<Longrightarrow> REL2ABS h (ABS2REL h v) = v"
proof -
  assume a: "heap_listp h < v" "v < heap_listp h + 2 ^ 32"
  then have "(int v - int (heap_listp h)) mod 2 ^ 32 = int v - int (heap_listp h)"
    by (intro mod_pos_pos_trivial) auto
  with a show ?thesis
    by (auto simp: REL2ABS_def ABS2REL_def)
qed

lemma ABS2REL_PUT [simp]: "ABS2REL (PUT p v h) x = ABS2REL h x"
  by (simp add: ABS2REL_def)

lemma REL2ABS_PUT [simp]: "REL2ABS (PUT p v h) x = REL2ABS h x"
  by (simp add: REL2ABS_def)

lemma SET_fields [simp]:
  "heap_listp (SET_HEAD a v h) = heap_listp h" "mem_brk (SET_HEAD a v h) = mem_brk h"
  "mem_max_addr (SET_HEAD a v h) = mem_max_addr h"
  "heap_listp (SET_PRED a v h) = heap_listp h" "mem_brk (SET_PRED a v h) = mem_brk h"
  "mem_max_addr (SET_PRED a v h) = mem_max_addr h"
  "heap_listp (SET_SUCC a v h) = heap_listp h" "mem_brk (SET_SUCC a v h) = mem_brk h"
  "mem_max_addr (SET_SUCC a v h) = mem_max_addr h"
  by (simp_all add: SET_HEAD_def SET_PRED_def SET_SUCC_def)

text \<open>A pointer that a link can hold: null, or a block pointer above \<open>heap_listp\<close>.\<close>

lemma GET_PUT_link:
  "v = NULL \<or> (heap_listp h < v \<and> v < heap_listp h + 2 ^ 32) \<Longrightarrow>
   REL2ABS h (GET (PUT a (ABS2REL h v) h') a) = v"
  using ABS2REL_lt [of h v] by (auto simp: GET_PUT_same REL2ABS_ABS2REL)

lemma ABS2REL_mod [simp]: "ABS2REL h v mod 4294967296 = ABS2REL h v"
  using ABS2REL_lt [of h v] by simp

lemma REL2ABS_ABS2REL' [simp]:
  "heap_listp h < v \<Longrightarrow> v < heap_listp h + 4294967296 \<Longrightarrow> REL2ABS h (ABS2REL h v) = v"
  using REL2ABS_ABS2REL [of h v] by simp

lemma GET_PUT_same' [simp]: "GET (PUT p v h) p = v mod 4294967296"
  using GET_PUT_same [of p v h] by simp

lemma GET_PUT_lo: "p + 4 \<le> q \<Longrightarrow> GET (PUT p v h) q = GET h q"
  by (simp add: GET_PUT_other)

lemma GET_PUT_hi: "q + 4 \<le> p \<Longrightarrow> GET (PUT p v h) q = GET h q"
  by (simp add: GET_PUT_other)

section \<open>List segments\<close>

lemma seg_cong:
  "heap_listp h' = heap_listp h \<Longrightarrow>
   \<forall>x \<in> set xs. GET h' x = GET h x \<and> GET h' (x + 4) = GET h (x + 4) \<Longrightarrow>
   seg h' prev cur xs nxt = seg h prev cur xs nxt"
  by (induction xs arbitrary: prev cur)
     (auto simp: GET_PRED_def GET_SUCC_def REL2ABS_def PREDP_def SUCCP_def)

lemma seg_append:
  "seg h prev cur (xs @ ys) nxt \<longleftrightarrow>
     seg h prev cur xs (hd (ys @ [nxt])) \<and> seg h (last (prev # xs)) (hd (ys @ [nxt])) ys nxt"
proof (induction xs arbitrary: prev cur)
  case Nil
  show ?case by (cases ys) auto
next
  case (Cons x xs)
  show ?case by (auto simp: Cons.IH)
qed

lemma seg_snoc:
  "seg h prev cur (xs @ [x]) nxt \<longleftrightarrow>
     seg h prev cur xs x \<and> x \<noteq> NULL \<and> GET_PRED h x = last (prev # xs) \<and> GET_SUCC h x = nxt"
  by (auto simp: seg_append)

lemma seg_nonnull: "seg h prev cur xs nxt \<Longrightarrow> NULL \<notin> set xs"
  by (induction xs arbitrary: prev cur) auto

lemma seg_cur: "seg h prev cur xs nxt \<Longrightarrow> cur = hd (xs @ [nxt])"
  by (cases xs) auto

lemma insert_walk_seg:
  "seg h prev cur (map fst xs) NULL \<Longrightarrow> \<forall>(x, s) \<in> set xs. GET_SIZE h (HDRP x) = s \<Longrightarrow>
   insert_walk h sz pd cur =
     Some (last (pd # map fst (takeWhile (\<lambda>y. snd y < sz) xs)),
           hd (map fst (dropWhile (\<lambda>y. snd y < sz) xs) @ [NULL]))"
proof (induction xs arbitrary: prev cur pd)
  case Nil
  then show ?case by (subst insert_walk.simps) simp
next
  case (Cons e xs)
  obtain x s where e: "e = (x, s)" by (cases e)
  from Cons.prems e have cur: "cur = x" "x \<noteq> NULL" and sg: "seg h x (GET_SUCC h x) (map fst xs) NULL"
    and sz: "GET_SIZE h (HDRP x) = s" and rest: "\<forall>(x, s) \<in> set xs. GET_SIZE h (HDRP x) = s"
    by auto
  show ?case
  proof (cases "s < sz")
    case True
    have "insert_walk h sz pd cur = insert_walk h sz x (GET_SUCC h x)"
      by (subst insert_walk.simps) (use cur sz True in simp)
    also note Cons.IH [OF sg rest, of x]
    finally show ?thesis using True e by simp
  next
    case False
    have "insert_walk h sz pd cur = Some (pd, x)"
      by (subst insert_walk.simps) (use cur sz False in simp)
    then show ?thesis using False e by simp
  qed
qed

lemma find_fit_list_seg:
  "seg h prev cur (map fst xs) NULL \<Longrightarrow> \<forall>(x, s) \<in> set xs. GET_SIZE h (HDRP x) = s \<Longrightarrow>
   find_fit_list h asize cur = Some (hd (map fst (filter (\<lambda>y. asize \<le> snd y) xs) @ [NULL]))"
proof (induction xs arbitrary: prev cur)
  case Nil
  then show ?case by (subst find_fit_list.simps) simp
next
  case (Cons e xs)
  obtain x s where e: "e = (x, s)" by (cases e)
  from Cons.prems e have cur: "cur = x" "x \<noteq> NULL" and sg: "seg h x (GET_SUCC h x) (map fst xs) NULL"
    and sz: "GET_SIZE h (HDRP x) = s" and rest: "\<forall>(x, s) \<in> set xs. GET_SIZE h (HDRP x) = s"
    by auto
  show ?case
  proof (cases "asize \<le> s")
    case True
    have "find_fit_list h asize cur = Some x"
      by (subst find_fit_list.simps) (use cur sz True in simp)
    then show ?thesis using True e by simp
  next
    case False
    have "find_fit_list h asize cur = find_fit_list h asize (GET_SUCC h x)"
      by (subst find_fit_list.simps) (use cur sz False in simp)
    also note Cons.IH [OF sg rest]
    finally show ?thesis using False e by simp
  qed
qed

lemmas link_defs = GET_HEAD_def GET_PRED_def GET_SUCC_def SET_HEAD_def SET_PRED_def SET_SUCC_def
  PREDP_def SUCCP_def

lemma seg_insert:
  assumes L: "seg h NULL (GET_HEAD h H) (pre @ post) NULL"
    and d: "distinct (pre @ post)"
    and sep: "\<And>x y. x \<in> set (bp # pre @ post) \<Longrightarrow> y \<in> set (bp # pre @ post) \<Longrightarrow>
                x = y \<or> x + 8 \<le> y \<or> y + 8 \<le> x"
    and bp: "bp \<notin> set (pre @ post)"
    and rng: "\<And>x. x \<in> set (bp # pre @ post) \<Longrightarrow> heap_listp h < x \<and> x < heap_listp h + 2 ^ 32"
    and H: "H + 4 \<le> heap_listp h"
  defines "pd \<equiv> last (H # pre)" and "sc \<equiv> hd (post @ [NULL])"
  defines "h1 \<equiv> (if pd = H then SET_HEAD H bp h else SET_SUCC pd bp h)"
  defines "h2 \<equiv> SET_PRED bp (if pd = H then NULL else pd) h1"
  defines "h3 \<equiv> SET_SUCC bp sc h2"
  defines "h4 \<equiv> (if sc \<noteq> NULL then SET_PRED sc bp h3 else h3)"
  shows "seg h4 NULL (GET_HEAD h4 H) (pre @ bp # post) NULL"
proof -
  have hl [simp]: "heap_listp h4 = heap_listp h" "heap_listp h3 = heap_listp h"
    "heap_listp h2 = heap_listp h" "heap_listp h1 = heap_listp h"
    by (simp_all add: h4_def h3_def h2_def h1_def)
  have bpr: "heap_listp h < bp" "bp < heap_listp h + 2 ^ 32" using rng [of bp] by auto
  have pdH: "pd = H \<longleftrightarrow> pre = []"
  proof (cases pre rule: rev_cases)
    case Nil
    then show ?thesis by (simp add: pd_def)
  next
    case (snoc ys p)
    with rng [of p] H show ?thesis by (auto simp: pd_def)
  qed
  have sc0: "sc = NULL \<longleftrightarrow> post = []"
  proof (cases post)
    case Nil
    then show ?thesis by (simp add: sc_def)
  next
    case (Cons y ys)
    with rng [of y] show ?thesis by (auto simp: sc_def)
  qed
  have scr: "sc = NULL \<or> (heap_listp h < sc \<and> sc < heap_listp h + 2 ^ 32)"
    using sc0 rng [of "hd post"] by (cases post) (auto simp: sc_def)
  have other: "GET h4 x = GET h x \<and> GET h4 (x + 4) = GET h (x + 4)"
    if x: "x \<in> set (pre @ post)" "pre = [] \<or> x \<noteq> last pre" "post = [] \<or> x \<noteq> hd post" for x
  proof -
    have 1: "x + 8 \<le> bp \<or> bp + 8 \<le> x" using sep [of x bp] x bp by auto
    have 2: "pre = [] \<or> x + 8 \<le> last pre \<or> last pre + 8 \<le> x"
      using sep [of x "last pre"] x by auto
    have 3: "post = [] \<or> x + 8 \<le> hd post \<or> hd post + 8 \<le> x"
      using sep [of x "hd post"] x by auto
    have 4: "H + 4 \<le> x" using rng [of x] x H by auto
    show ?thesis
      using 1 2 3 4 pdH sc0
      by (cases "pre = []"; cases "post = []")
        (auto simp: h4_def h3_def h2_def h1_def link_defs GET_PUT_lo GET_PUT_hi pd_def sc_def
          hd_append)
  qed
  have plast: "pre \<noteq> [] \<Longrightarrow> last pre \<in> set (pre @ post)" by simp
  have phd: "post \<noteq> [] \<Longrightarrow> hd post \<in> set (pre @ post)" by simp
  have rhead: "GET_HEAD h4 H = (if pre = [] then bp else GET_HEAD h H)"
    using pdH sc0 bpr H rng [of "last pre"] rng [of "hd post"] plast phd
    by (cases "pre = []"; cases "post = []")
      (auto simp: h4_def h3_def h2_def h1_def link_defs GET_PUT_lo GET_PUT_hi pd_def
         sc_def)
  have sbp_p: "pre = [] \<or> last pre + 8 \<le> bp \<or> bp + 8 \<le> last pre"
    using sep [of "last pre" bp] bp plast by (cases "pre = []") auto
  have sbp_s: "post = [] \<or> hd post + 8 \<le> bp \<or> bp + 8 \<le> hd post"
    using sep [of "hd post" bp] bp phd by (cases "post = []") auto
  have sps: "pre = [] \<or> post = [] \<or> last pre + 8 \<le> hd post \<or> hd post + 8 \<le> last pre"
  proof -
    have "last pre \<noteq> hd post" if "pre \<noteq> []" "post \<noteq> []"
      using d that by (metis distinct_append disjoint_iff hd_in_set last_in_set)
    then show ?thesis using sep [of "last pre" "hd post"] plast phd by auto
  qed
  have pr: "pre \<noteq> [] \<Longrightarrow> heap_listp h < last pre \<and> last pre < heap_listp h + 2 ^ 32"
    using rng [of "last pre"] by simp
  have rbp1: "GET_PRED h4 bp = (if pre = [] then NULL else last pre)"
    using pdH sc0 bpr scr pr sbp_s
    by (cases "pre = []"; cases "post = []")
      (auto simp: h4_def h3_def h2_def h1_def link_defs GET_PUT_lo GET_PUT_hi pd_def
          sc_def)
  have rbp2: "GET_SUCC h4 bp = sc"
    using pdH sc0 bpr scr pr sbp_s
    by (cases "pre = []"; cases "post = []")
      (auto simp: h4_def h3_def h2_def h1_def link_defs GET_PUT_lo GET_PUT_hi pd_def
          sc_def)
  have rp: "GET_SUCC h4 (last pre) = bp \<and> GET h4 (last pre) = GET h (last pre)" if "pre \<noteq> []"
    using that pdH sc0 bpr sbp_p sps H pr
    by (cases "post = []")
      (auto simp: h4_def h3_def h2_def h1_def link_defs GET_PUT_lo GET_PUT_hi pd_def
          sc_def)
  have rs: "GET_PRED h4 (hd post) = bp \<and> GET h4 (hd post + 4) = GET h (hd post + 4)"
    if "post \<noteq> []"
    using that pdH sc0 bpr sbp_s sps H rng [of "hd post"]
    by (cases "pre = []")
      (auto simp: h4_def h3_def h2_def h1_def link_defs GET_PUT_lo GET_PUT_hi pd_def
          sc_def)
  have tail: "seg h4 bp sc post NULL" if "seg h q sc post NULL" for q
  proof (cases post)
    case Nil
    with that show ?thesis by simp
  next
    case (Cons y ys)
    have y: "hd post = y" "post \<noteq> []" using Cons by simp_all
    have "seg h4 y (GET_SUCC h y) ys NULL = seg h y (GET_SUCC h y) ys NULL"
    proof (rule seg_cong)
      show "heap_listp h4 = heap_listp h" by simp
      show "\<forall>x\<in>set ys. GET h4 x = GET h x \<and> GET h4 (x + 4) = GET h (x + 4)"
      proof
        fix x assume x: "x \<in> set ys"
        with d Cons have "x \<noteq> hd post" "pre = [] \<or> x \<noteq> last pre"
          by (auto dest: last_in_set)
        with x Cons show "GET h4 x = GET h x \<and> GET h4 (x + 4) = GET h (x + 4)"
          by (intro other) auto
      qed
    qed
    moreover have "GET_SUCC h4 y = GET_SUCC h y"
      using rs [OF y(2)] y by (simp add: GET_SUCC_def SUCCP_def REL2ABS_def)
    ultimately show ?thesis
      using that Cons rs [OF y(2)] by auto
  qed
  show ?thesis
  proof (cases pre rule: rev_cases)
    case Nil
    with L have "seg h NULL sc post NULL"
      using seg_cur [of h NULL "GET_HEAD h H" post NULL] by (simp add: sc_def)
    from tail [OF this] Nil rhead rbp1 rbp2 bpr show ?thesis by simp
  next
    case (snoc ys p)
    have p: "last pre = p" "pre \<noteq> []" using snoc by simp_all
    from L snoc have "seg h NULL (GET_HEAD h H) ((ys @ [p]) @ post) NULL" by simp
    from seg_append [THEN iffD1, OF this]
    have a: "seg h NULL (GET_HEAD h H) (ys @ [p]) sc" and b: "seg h p sc post NULL"
      by (simp_all add: sc_def)
    from a have a1: "seg h NULL (GET_HEAD h H) ys p" and a2: "GET_PRED h p = last (NULL # ys)"
      and a3: "p \<noteq> NULL"
      by (simp_all add: seg_snoc)
    have "seg h4 NULL (GET_HEAD h H) ys p = seg h NULL (GET_HEAD h H) ys p"
    proof (rule seg_cong)
      show "heap_listp h4 = heap_listp h" by simp
      show "\<forall>x\<in>set ys. GET h4 x = GET h x \<and> GET h4 (x + 4) = GET h (x + 4)"
      proof
        fix x assume x: "x \<in> set ys"
        with d snoc have "x \<noteq> last pre" "post = [] \<or> x \<noteq> hd post"
          by (auto dest: hd_in_set)
        with x snoc show "GET h4 x = GET h x \<and> GET h4 (x + 4) = GET h (x + 4)"
          by (intro other) auto
      qed
    qed
    with a1 have f: "seg h4 NULL (GET_HEAD h H) ys p" by simp
    have "GET_PRED h4 p = GET_PRED h p"
      using rp [OF p(2)] p by (simp add: GET_PRED_def PREDP_def REL2ABS_def)
    with a2 a3 f rp [OF p(2)] p
    have "seg h4 NULL (GET_HEAD h H) (ys @ [p]) bp"
      by (simp add: seg_snoc)
    moreover have "seg h4 p bp (bp # post) NULL"
      using tail [OF b] rbp1 rbp2 bpr p by simp
    ultimately have "seg h4 NULL (GET_HEAD h H) ((ys @ [p]) @ bp # post) NULL"
      by (subst seg_append) simp
    then show ?thesis
      using rhead p snoc by simp
  qed
qed

lemma seg_remove:
  assumes L: "seg h NULL (GET_HEAD h H) (pre @ bp # post) NULL"
    and d: "distinct (pre @ bp # post)"
    and sep: "\<And>x y. x \<in> set (pre @ bp # post) \<Longrightarrow> y \<in> set (pre @ bp # post) \<Longrightarrow>
                x = y \<or> x + 8 \<le> y \<or> y + 8 \<le> x"
    and rng: "\<And>x. x \<in> set (pre @ bp # post) \<Longrightarrow> heap_listp h < x \<and> x < heap_listp h + 2 ^ 32"
    and H: "H + 4 \<le> heap_listp h"
  defines "pd \<equiv> GET_PRED h bp" and "sc \<equiv> GET_SUCC h bp"
  defines "h' \<equiv> (if pd = NULL \<and> sc = NULL then SET_HEAD H NULL h
                  else if pd = NULL \<and> sc \<noteq> NULL then SET_PRED sc NULL (SET_HEAD H sc h)
                  else if pd \<noteq> NULL \<and> sc = NULL then SET_SUCC pd NULL h
                  else SET_PRED sc pd (SET_SUCC pd sc h))"
  shows "seg h' NULL (GET_HEAD h' H) (pre @ post) NULL"
    and "pd = last (NULL # pre)" and "sc = hd (post @ [NULL])"
proof -
  from seg_append [THEN iffD1, OF L]
  have a: "seg h NULL (GET_HEAD h H) pre bp" and b0: "seg h (last (NULL # pre)) bp (bp # post) NULL"
    by simp_all
  from b0 have pd: "pd = last (NULL # pre)" and b: "seg h bp sc post NULL"
    by (simp_all add: pd_def sc_def)
  from b have sc: "sc = hd (post @ [NULL])" by (rule seg_cur)
  show "pd = last (NULL # pre)" by (rule pd)
  show "sc = hd (post @ [NULL])" by (rule sc)
  have hl [simp]: "heap_listp h' = heap_listp h" by (simp add: h'_def)
  have nn: "NULL \<notin> set (pre @ bp # post)" using seg_nonnull [OF L] .
  have pd0: "pd = NULL \<longleftrightarrow> pre = []"
    using nn pd by (cases pre rule: rev_cases) auto
  have sc0: "sc = NULL \<longleftrightarrow> post = []"
    using nn sc by (cases post) auto
  have pdl: "pre \<noteq> [] \<Longrightarrow> pd = last pre" using pd by simp
  have sch: "post \<noteq> [] \<Longrightarrow> sc = hd post" using sc by simp
  have plast: "pre \<noteq> [] \<Longrightarrow> last pre \<in> set (pre @ bp # post)" by simp
  have phd: "post \<noteq> [] \<Longrightarrow> hd post \<in> set (pre @ bp # post)" by simp
  have pr: "pre \<noteq> [] \<Longrightarrow> heap_listp h < last pre \<and> last pre < heap_listp h + 2 ^ 32"
    using rng [of "last pre"] by simp
  have sr: "post \<noteq> [] \<Longrightarrow> heap_listp h < hd post \<and> hd post < heap_listp h + 2 ^ 32"
    using rng [of "hd post"] by simp
  have sps: "pre = [] \<or> post = [] \<or> last pre + 8 \<le> hd post \<or> hd post + 8 \<le> last pre"
  proof -
    have "last pre \<noteq> hd post" if "pre \<noteq> []" "post \<noteq> []"
      using d that by (auto dest: hd_in_set last_in_set)
    then show ?thesis using sep [of "last pre" "hd post"] plast phd by auto
  qed
  have other: "GET h' x = GET h x \<and> GET h' (x + 4) = GET h (x + 4)"
    if x: "x \<in> set (pre @ post)" "pre = [] \<or> x \<noteq> last pre" "post = [] \<or> x \<noteq> hd post" for x
  proof -
    have 2: "pre = [] \<or> x + 8 \<le> last pre \<or> last pre + 8 \<le> x"
      using sep [of x "last pre"] x by auto
    have 3: "post = [] \<or> x + 8 \<le> hd post \<or> hd post + 8 \<le> x"
      using sep [of x "hd post"] x by auto
    have 4: "H + 4 \<le> x" using rng [of x] x H by auto
    show ?thesis
      using 2 3 4 pd0 sc0 pdl sch
      by (cases "pre = []"; cases "post = []")
        (auto simp: h'_def link_defs GET_PUT_lo GET_PUT_hi)
  qed
  have rhead: "GET_HEAD h' H = (if pre = [] then sc else GET_HEAD h H)"
    using pd0 sc0 pdl sch H pr sr
    by (cases "pre = []"; cases "post = []")
      (auto simp: h'_def link_defs GET_PUT_lo GET_PUT_hi)
  have rp: "GET_SUCC h' (last pre) = sc \<and> GET h' (last pre) = GET h (last pre)" if "pre \<noteq> []"
    using that pd0 sc0 pdl sch sps H pr sr
    by (cases "post = []")
      (auto simp: h'_def link_defs GET_PUT_lo GET_PUT_hi)
  have rs: "GET_PRED h' (hd post) = pd \<and> GET h' (hd post + 4) = GET h (hd post + 4)"
    if "post \<noteq> []"
    using that pd0 sc0 pdl sch sps H pr sr
    by (cases "pre = []")
      (auto simp: h'_def link_defs GET_PUT_lo GET_PUT_hi)
  have tail: "seg h' pd sc post NULL"
  proof (cases post)
    case Nil
    with b show ?thesis by simp
  next
    case (Cons y ys)
    have y: "hd post = y" "post \<noteq> []" using Cons by simp_all
    have "seg h' y (GET_SUCC h y) ys NULL = seg h y (GET_SUCC h y) ys NULL"
    proof (rule seg_cong)
      show "heap_listp h' = heap_listp h" by simp
      show "\<forall>x\<in>set ys. GET h' x = GET h x \<and> GET h' (x + 4) = GET h (x + 4)"
      proof
        fix x assume x: "x \<in> set ys"
        with d Cons have "x \<noteq> hd post" "pre = [] \<or> x \<noteq> last pre"
          by (auto dest: last_in_set)
        with x Cons show "GET h' x = GET h x \<and> GET h' (x + 4) = GET h (x + 4)"
          by (intro other) auto
      qed
    qed
    moreover have "GET_SUCC h' y = GET_SUCC h y"
      using rs [OF y(2)] y by (simp add: GET_SUCC_def SUCCP_def REL2ABS_def)
    ultimately show ?thesis
      using b Cons rs [OF y(2)] by auto
  qed
  show "seg h' NULL (GET_HEAD h' H) (pre @ post) NULL"
  proof (cases pre rule: rev_cases)
    case Nil
    with tail rhead pd show ?thesis by simp
  next
    case (snoc ys p)
    have p: "last pre = p" "pre \<noteq> []" using snoc by simp_all
    from a [unfolded snoc]
    have a1: "seg h NULL (GET_HEAD h H) ys p" and a2: "GET_PRED h p = last (NULL # ys)"
      and a3: "p \<noteq> NULL"
      by (simp_all add: seg_snoc)
    have "seg h' NULL (GET_HEAD h H) ys p = seg h NULL (GET_HEAD h H) ys p"
    proof (rule seg_cong)
      show "heap_listp h' = heap_listp h" by simp
      show "\<forall>x\<in>set ys. GET h' x = GET h x \<and> GET h' (x + 4) = GET h (x + 4)"
      proof
        fix x assume x: "x \<in> set ys"
        with d snoc have "x \<noteq> last pre" "post = [] \<or> x \<noteq> hd post"
          by (auto dest: hd_in_set)
        with x snoc show "GET h' x = GET h x \<and> GET h' (x + 4) = GET h (x + 4)"
          by (intro other) auto
      qed
    qed
    with a1 have f: "seg h' NULL (GET_HEAD h H) ys p" by simp
    have "GET_PRED h' p = GET_PRED h p"
      using rp [OF p(2)] p by (simp add: GET_PRED_def PREDP_def REL2ABS_def)
    with a2 a3 f rp [OF p(2)] p
    have "seg h' NULL (GET_HEAD h H) (ys @ [p]) sc"
      by (simp add: seg_snoc)
    moreover have "seg h' p sc post NULL"
      using tail pdl p by simp
    ultimately have "seg h' NULL (GET_HEAD h H) ((ys @ [p]) @ post) NULL"
      using sc by (subst seg_append) simp
    then show ?thesis
      using rhead p snoc by simp
  qed
qed

lemma mem_SET_other:
  "a < H \<or> H + 4 \<le> a \<Longrightarrow> mem (SET_HEAD H v h) a = mem h a"
  "a < x \<or> x + 4 \<le> a \<Longrightarrow> mem (SET_PRED x v h) a = mem h a"
  "a < x + 4 \<or> x + 8 \<le> a \<Longrightarrow> mem (SET_SUCC x v h) a = mem h a"
  by (auto simp: link_defs mem_PUT_other)

lemma class_id_lt: "class_id s < CLASS_CNT"
  by (simp add: class_id_def)

lemma list_head_eq: "region h \<Longrightarrow> c \<le> CLASS_CNT \<Longrightarrow> list_head h c + 64 = heap_listp h + 4 * c"
  unfolding list_head_def region_def by arith

lemma get_listp_eq: "get_listp s h = list_head h (class_id s)"
  by (simp add: get_listp_def list_head_def)

lemma GET_SIZE_tag: "GET h p = s + a \<Longrightarrow> 8 dvd s \<Longrightarrow> a < 2 \<Longrightarrow> GET_SIZE h p = s"
  by (auto simp: GET_SIZE_eq elim!: dvdE)

lemma GET_ALLOC_tag: "GET h p = s + a \<Longrightarrow> 8 dvd s \<Longrightarrow> a < 2 \<Longrightarrow> GET_ALLOC h p = a"
  unfolding GET_ALLOC_eq by presburger

lemma winv_geom:
  assumes "winv h bs fl" and "(x, s, a) \<in> set bs"
  shows "heap_listp h + 8 \<le> x" "x + s \<le> mem_brk h" "16 \<le> s" "8 dvd s" "a < 2"
    "x < heap_listp h + 2 ^ 32" "GET h (x - 4) = s + a" "GET h (x + s - 8) = s + a"
    "GET_SIZE h (HDRP x) = s" "GET_ALLOC h (HDRP x) = a"
proof -
  from assms have c: "chain h (heap_listp h + 8) bs (mem_brk h)" and r: "region h"
    by (simp_all add: winv_def)
  note g = chain_mem [OF c assms(2)]
  from g show "heap_listp h + 8 \<le> x" "x + s \<le> mem_brk h" "16 \<le> s" "8 dvd s" "a < 2"
    "GET h (x - 4) = s + a" "GET h (x + s - 8) = s + a" by simp_all
  from g r show "x < heap_listp h + 2 ^ 32" by (simp add: region_def)
  from g show "GET_SIZE h (HDRP x) = s" by (simp add: HDRP_def GET_SIZE_tag)
  from g show "GET_ALLOC h (HDRP x) = a" by (simp add: HDRP_def GET_ALLOC_tag)
qed

lemma winv_disj:
  assumes "winv h bs fl" and "(x, s, a) \<in> set bs" and "(y, t, b) \<in> set bs"
  shows "(x, s, a) = (y, t, b) \<or> x + s \<le> y \<or> y + t \<le> x"
  using assms chain_disj [of h "heap_listp h + 8" bs "mem_brk h" x s a y t b]
  by (simp add: winv_def)

lemma winv_same_start:
  assumes "winv h bs fl" and "(x, s, a) \<in> set bs" and "(x, t, b) \<in> set bs"
  shows "t = s \<and> b = a"
  using assms chain_same_start [of h "heap_listp h + 8" bs "mem_brk h" x s a t b]
  by (simp add: winv_def)

lemma lists_mem:
  "lists h bs fl \<Longrightarrow> (x, t) \<in> set (fl c) \<Longrightarrow> (x, t, 0) \<in> set bs \<and> class_id t = c"
  by (auto simp: lists_def)

lemma winv_listed:
  assumes "winv h bs fl" and "(x, t) \<in> set (fl c)"
  shows "(x, t, 0) \<in> set bs" "class_id t = c" "c < CLASS_CNT"
proof -
  from assms have l: "lists h bs fl" by (simp add: winv_def)
  from lists_mem [OF l assms(2)] show "(x, t, 0) \<in> set bs" "class_id t = c" by simp_all
  then show "c < CLASS_CNT" using class_id_lt [of t] by simp
qed

text \<open>
  A step that writes only the head of one list and link fields of free blocks leaves
  the fixed words, the chain of blocks, the payload of every allocated block and every
  list that does not hold one of these blocks as they were.
\<close>

lemma links_frame:
  assumes W: "winv h bs fl"
    and X0: "\<forall>x \<in> X. \<exists>s. (x, s, 0) \<in> set bs"
    and c: "c < CLASS_CNT"
    and f: "heap_listp h' = heap_listp h" "mem_brk h' = mem_brk h" "mem_max_addr h' = mem_max_addr h"
    and fr0: "\<forall>a. (a < list_head h c \<or> list_head h c + 4 \<le> a) \<and>
                 (\<forall>x \<in> X. a < x \<or> x + 8 \<le> a) \<longrightarrow> mem h' a = mem h a"
  shows "region h'" and "chain h' (heap_listp h + 8) bs (mem_brk h)" and "keeps bs h h'"
    and "\<And>c' ys. c' < CLASS_CNT \<Longrightarrow> c' \<noteq> c \<Longrightarrow> set ys \<inter> X = {} \<Longrightarrow>
           \<forall>y \<in> set ys. \<exists>t. (y, t, 0) \<in> set bs \<Longrightarrow>
           seg h' NULL (GET_HEAD h' (list_head h' c')) ys NULL
           = seg h NULL (GET_HEAD h (list_head h c')) ys NULL"
proof -
  have X: "\<exists>s. (x, s, 0) \<in> set bs" if "x \<in> X" for x using X0 that by blast
  have fr: "mem h' a = mem h a"
    if "a < list_head h c \<or> list_head h c + 4 \<le> a" "\<forall>x \<in> X. a < x \<or> x + 8 \<le> a" for a
    using fr0 that by blast
  from W have r: "region h" and ch: "chain h (heap_listp h + 8) bs (mem_brk h)"
    by (simp_all add: winv_def)
  have H: "list_head h c + 64 = heap_listp h + 4 * c" using list_head_eq [OF r] c by simp
  have Xg: "heap_listp h + 8 \<le> x \<and> x + 16 \<le> mem_brk h" if "x \<in> X" for x
  proof -
    from X [OF that] obtain s where "(x, s, 0) \<in> set bs" by blast
    from winv_geom [OF W this] show ?thesis by simp
  qed
  have low: "mem h' a = mem h a" if "a < heap_listp h + 8" "a < list_head h c \<or> list_head h c + 4 \<le> a"
    for a
  proof (rule fr)
    show "a < list_head h c \<or> list_head h c + 4 \<le> a" using that by simp
    show "\<forall>x\<in>X. a < x \<or> x + 8 \<le> a"
    proof
      fix x assume "x \<in> X"
      from Xg [OF this] that show "a < x \<or> x + 8 \<le> a" by simp
    qed
  qed
  have high: "mem h' a = mem h a" if "mem_brk h \<le> a + 8" for a
  proof (rule fr)
    show "a < list_head h c \<or> list_head h c + 4 \<le> a" using that H c r by (simp add: region_def)
    show "\<forall>x\<in>X. a < x \<or> x + 8 \<le> a"
    proof
      fix x assume "x \<in> X"
      from Xg [OF this] that show "a < x \<or> x + 8 \<le> a" by simp
    qed
  qed
  show "region h'"
  proof -
    have "GET h' (heap_listp h - 4) = GET h (heap_listp h - 4)"
      by (rule GET_frame) (use H c r in \<open>auto intro!: low simp: region_def\<close>)
    moreover have "GET h' (heap_listp h) = GET h (heap_listp h)"
      by (rule GET_frame) (use H c r in \<open>auto intro!: low simp: region_def\<close>)
    moreover have "GET h' (mem_brk h - 4) = GET h (mem_brk h - 4)"
      by (rule GET_frame) (use H c r in \<open>auto intro!: high simp: region_def\<close>)
    ultimately show ?thesis using r f by (simp add: region_def)
  qed
  have tag: "mem h' a = mem h a"
    if m: "(b, s, al) \<in> set bs" and a: "(b \<le> a + 4 \<and> a < b) \<or> (b + s \<le> a + 8 \<and> a + 4 < b + s)"
    for a b s al
  proof (rule fr)
    note g = winv_geom [OF W m]
    show "a < list_head h c \<or> list_head h c + 4 \<le> a" using g a H c by auto
    show "\<forall>x\<in>X. a < x \<or> x + 8 \<le> a"
    proof
      fix x assume "x \<in> X"
      from X [OF this] obtain t where x: "(x, t, 0) \<in> set bs" by blast
      from winv_disj [OF W x m] winv_geom(3) [OF W x] g a show "a < x \<or> x + 8 \<le> a" by auto
    qed
  qed
  have "chain h' (heap_listp h + 8) bs (mem_brk h) = chain h (heap_listp h + 8) bs (mem_brk h)"
  proof (rule chain_cong)
    fix b s al assume m: "(b, s, al) \<in> set bs"
    note g = winv_geom [OF W m]
    have "GET h' (b - 4) = GET h (b - 4)"
      by (rule GET_frame) (use g in \<open>auto intro!: tag [OF m]\<close>)
    moreover have "GET h' (b + s - 8) = GET h (b + s - 8)"
      by (rule GET_frame) (use g in \<open>auto intro!: tag [OF m]\<close>)
    ultimately show "GET h' (b - 4) = GET h (b - 4) \<and> GET h' (b + s - 8) = GET h (b + s - 8)" ..
  qed
  with ch show "chain h' (heap_listp h + 8) bs (mem_brk h)" by simp
  show "keeps bs h h'"
    unfolding keeps_def
  proof (intro conjI ballI, goal_cases)
    case 1 show ?case by (rule f)
  next
    case 2 show ?case by (rule f)
  next
    case (3 e)
    obtain b s al where e: "e = (b, s, al)" by (cases e)
    have "mem h' a = mem h a" if al: "al = 1" and a: "b \<le> a" "a + 8 < b + s" for a
    proof (rule fr)
      from 3 e al have m: "(b, s, 1) \<in> set bs" by simp
      note g = winv_geom [OF W m]
      show "a < list_head h c \<or> list_head h c + 4 \<le> a" using g a H c by auto
      show "\<forall>x\<in>X. a < x \<or> x + 8 \<le> a"
      proof
        fix x assume "x \<in> X"
        from X [OF this] obtain t where x: "(x, t, 0) \<in> set bs" by blast
        from winv_disj [OF W x m] winv_geom(3) [OF W x] g a show "a < x \<or> x + 8 \<le> a" by auto
      qed
    qed
    then show ?case using e by auto
  qed
  show "seg h' NULL (GET_HEAD h' (list_head h' c')) ys NULL
           = seg h NULL (GET_HEAD h (list_head h c')) ys NULL"
    if c': "c' < CLASS_CNT" "c' \<noteq> c" and dj: "set ys \<inter> X = {}"
      and ys0: "\<forall>y \<in> set ys. \<exists>t. (y, t, 0) \<in> set bs" for c' ys
  proof -
    have ys: "\<exists>t. (y, t, 0) \<in> set bs" if "y \<in> set ys" for y using ys0 that by blast
    have H': "list_head h c' + 64 = heap_listp h + 4 * c'" using list_head_eq [OF r] c' by simp
    have lh: "list_head h' c' = list_head h c'" using f by (simp add: list_head_def)
    have "GET h' (list_head h c') = GET h (list_head h c')"
      by (rule GET_frame) (use H H' c c' in \<open>auto intro!: low\<close>)
    then have hd: "GET_HEAD h' (list_head h' c') = GET_HEAD h (list_head h c')"
      using f lh by (simp add: GET_HEAD_def REL2ABS_def)
    have cell: "mem h' a = mem h a" if y: "y \<in> set ys" and a: "y \<le> a" "a < y + 8" for y a
    proof (rule fr)
      from ys [OF y] obtain t where m: "(y, t, 0) \<in> set bs" by blast
      note g = winv_geom [OF W m]
      show "a < list_head h c \<or> list_head h c + 4 \<le> a" using g a H c by auto
      show "\<forall>x\<in>X. a < x \<or> x + 8 \<le> a"
      proof
        fix x assume xX: "x \<in> X"
        from X [OF this] obtain u where x: "(x, u, 0) \<in> set bs" by blast
        from xX y dj have "x \<noteq> y" by auto
        with winv_disj [OF W x m] winv_geom(3) [OF W x] g a show "a < x \<or> x + 8 \<le> a" by auto
      qed
    qed
    have "seg h' NULL (GET_HEAD h (list_head h c')) ys NULL
        = seg h NULL (GET_HEAD h (list_head h c')) ys NULL"
    proof (rule seg_cong [OF f(1)], rule ballI)
      fix y assume y: "y \<in> set ys"
      have "GET h' y = GET h y" by (rule GET_frame) (auto intro!: cell [OF y])
      moreover have "GET h' (y + 4) = GET h (y + 4)" by (rule GET_frame) (auto intro!: cell [OF y])
      ultimately show "GET h' y = GET h y \<and> GET h' (y + 4) = GET h (y + 4)" ..
    qed
    with hd show ?thesis by simp
  qed
qed

section \<open>Sorted insertion and removal on the ghost lists\<close>

lemma ins_Nil [simp]: "ins e [] = [e]"
  by (simp add: ins_def)

lemma ins_Cons: "ins e (x # xs) = (if snd x < snd e then x # ins e xs else e # x # xs)"
  by (simp add: ins_def)

lemma set_ins [simp]: "set (ins e xs) = insert e (set xs)"
  by (induction xs) (auto simp: ins_Cons)

lemma sorted_ins: "sorted (map snd xs) \<Longrightarrow> sorted (map snd (ins e xs))"
  by (induction xs) (auto simp: ins_Cons)

lemma map_fst_ins:
  "map fst (ins e xs) =
     map fst (takeWhile (\<lambda>y. snd y < snd e) xs) @ fst e # map fst (dropWhile (\<lambda>y. snd y < snd e) xs)"
  by (simp add: ins_def)

lemma distinct_ins:
  "distinct (map fst xs) \<Longrightarrow> fst e \<notin> fst ` set xs \<Longrightarrow> distinct (map fst (ins e xs))"
  by (induction xs) (auto simp: ins_Cons)

lemma insert_cascade:
  "(if pd = H \<and> sc = NULL then SET_SUCC bp NULL (SET_PRED bp NULL (SET_HEAD H bp h))
    else if pd = H \<and> sc \<noteq> NULL then
      SET_PRED sc bp (SET_SUCC bp sc (SET_PRED bp NULL (SET_HEAD H bp h)))
    else if pd \<noteq> H \<and> sc = NULL then SET_SUCC bp sc (SET_PRED bp pd (SET_SUCC pd bp h))
    else SET_PRED sc bp (SET_SUCC bp sc (SET_PRED bp pd (SET_SUCC pd bp h))))
   = (let h1 = (if pd = H then SET_HEAD H bp h else SET_SUCC pd bp h);
          h2 = SET_PRED bp (if pd = H then NULL else pd) h1;
          h3 = SET_SUCC bp sc h2
      in if sc \<noteq> NULL then SET_PRED sc bp h3 else h3)"
  by (simp add: Let_def)

lemma insert_spec:
  assumes W: "winv h bs fl" and m: "(bp, s, 0) \<in> set bs" and nl: "\<And>c. bp \<notin> fst ` set (fl c)"
  shows "\<exists>h'. insert_to_free_list bp h = Some h' \<and> winv h' bs (fl_insert (bp, s) fl)
           \<and> keeps bs h h' \<and> mem_brk h' = mem_brk h"
proof -
  define c where "c = class_id s"
  define H where "H = list_head h c"
  define xs where "xs = fl c"
  define pre where "pre = map fst (takeWhile (\<lambda>y. snd y < s) xs)"
  define post where "post = map fst (dropWhile (\<lambda>y. snd y < s) xs)"
  define pd where "pd = last (H # pre)"
  define sc where "sc = hd (post @ [NULL])"
  define h1 where "h1 = (if pd = H then SET_HEAD H bp h else SET_SUCC pd bp h)"
  define h2 where "h2 = SET_PRED bp (if pd = H then NULL else pd) h1"
  define h3 where "h3 = SET_SUCC bp sc h2"
  define h4 where "h4 = (if sc \<noteq> NULL then SET_PRED sc bp h3 else h3)"
  from W have r: "region h" and l: "lists h bs fl" by (simp_all add: winv_def)
  have c: "c < CLASS_CNT" using class_id_lt [of s] by (simp add: c_def)
  have Hh: "H + 64 = heap_listp h + 4 * c" using list_head_eq [OF r, of c] c by (simp add: H_def)
  note gb = winv_geom [OF W m]
  have pp: "pre @ post = map fst xs"
    by (simp add: pre_def post_def flip: map_append)
  have L: "seg h NULL (GET_HEAD h H) (pre @ post) NULL"
    using l c by (simp add: lists_def pp xs_def H_def)
  have d: "distinct (pre @ post)" using l by (simp add: lists_def pp xs_def)
  have xsm: "(x, t, 0) \<in> set bs" if "(x, t) \<in> set xs" for x t
    using winv_listed(1) [OF W, of x t c] that by (simp add: xs_def)
  have szs: "\<forall>(x, t) \<in> set xs. GET_SIZE h (HDRP x) = t"
    using xsm winv_geom(9) [OF W] by blast
  have bpn: "bp \<notin> set (pre @ post)" using nl [of c] by (simp add: pp xs_def)
  have blk: "\<exists>t. (x, t, 0) \<in> set bs" if "x \<in> set (bp # pre @ post)" for x
    using that m xsm by (fastforce simp: pp)
  have sep: "x = y \<or> x + 8 \<le> y \<or> y + 8 \<le> x"
    if "x \<in> set (bp # pre @ post)" "y \<in> set (bp # pre @ post)" for x y
  proof -
    from blk [OF that(1)] obtain t where x: "(x, t, 0) \<in> set bs" by blast
    from blk [OF that(2)] obtain u where y: "(y, u, 0) \<in> set bs" by blast
    from winv_disj [OF W x y] winv_geom(3) [OF W x] winv_geom(3) [OF W y] show ?thesis by auto
  qed
  have rng: "heap_listp h < x \<and> x < heap_listp h + 2 ^ 32" if "x \<in> set (bp # pre @ post)" for x
  proof -
    from blk [OF that] obtain t where x: "(x, t, 0) \<in> set bs" by blast
    from winv_geom(1,6) [OF W x] show ?thesis by simp
  qed
  have HH: "H + 4 \<le> heap_listp h" using Hh c by simp
  have sz: "GET_SIZE h (HDRP bp) = s" by (rule gb(9))
  have walk: "insert_walk h s H (GET_HEAD h H) = Some (pd, sc)"
    using insert_walk_seg [OF L [unfolded pp] szs, of s H]
    by (simp add: pd_def sc_def pre_def post_def)
  have res: "insert_to_free_list bp h = Some h4"
    unfolding insert_to_free_list_def
    by (simp add: sz get_listp_eq walk insert_cascade h4_def h3_def h2_def h1_def
        flip: c_def H_def)
  have sg: "seg h4 NULL (GET_HEAD h4 H) (pre @ bp # post) NULL"
    unfolding h4_def h3_def h2_def h1_def pd_def sc_def
    by (rule seg_insert [OF L d sep bpn rng HH])
  have f: "heap_listp h4 = heap_listp h" "mem_brk h4 = mem_brk h" "mem_max_addr h4 = mem_max_addr h"
    by (simp_all add: h4_def h3_def h2_def h1_def)
  define X where "X = set (bp # pre @ post)"
  have pdX: "pd = H \<or> pd \<in> X" by (cases pre rule: rev_cases) (auto simp: pd_def X_def)
  have scX: "sc = NULL \<or> sc \<in> X" by (cases post) (auto simp: sc_def X_def)
  have fr: "\<forall>a. (a < list_head h c \<or> list_head h c + 4 \<le> a) \<and> (\<forall>x \<in> X. a < x \<or> x + 8 \<le> a)
      \<longrightarrow> mem h4 a = mem h a"
  proof (intro allI impI, elim conjE)
    fix a
    assume that: "a < list_head h c \<or> list_head h c + 4 \<le> a" "\<forall>x \<in> X. a < x \<or> x + 8 \<le> a"
    have "a < bp \<or> bp + 8 \<le> a" using that(2) by (simp add: X_def)
    moreover have "pd = H \<or> a < pd \<or> pd + 8 \<le> a" using that(2) pdX by auto
    moreover have "sc = NULL \<or> a < sc \<or> sc + 8 \<le> a" using that(2) scX by auto
    ultimately show "mem h4 a = mem h a"
      using that(1)
      by (auto simp: h4_def h3_def h2_def h1_def mem_SET_other simp flip: H_def)
  qed
  have XX: "\<forall>x \<in> X. \<exists>s. (x, s, 0) \<in> set bs" using blk by (simp add: X_def)
  note lf = links_frame [OF W XX c f fr]
  have "lists h4 bs (fl_insert (bp, s) fl)"
    unfolding lists_def
  proof (intro allI conjI impI)
    fix c'
    show "seg h4 NULL (GET_HEAD h4 (list_head h4 c')) (map fst (fl_insert (bp, s) fl c')) NULL"
      if c': "c' < CLASS_CNT"
    proof (cases "c' = c")
      case True
      have "list_head h4 c = H" using f by (simp add: list_head_def H_def)
      with sg True show ?thesis
        by (simp add: fl_insert_def map_fst_ins pre_def post_def flip: c_def xs_def)
    next
      case False
      have "seg h4 NULL (GET_HEAD h4 (list_head h4 c')) (map fst (fl c')) NULL
        = seg h NULL (GET_HEAD h (list_head h c')) (map fst (fl c')) NULL"
      proof (rule lf(4) [OF c' False])
        show "set (map fst (fl c')) \<inter> X = {}"
        proof (rule ccontr)
          assume "set (map fst (fl c')) \<inter> X \<noteq> {}"
          then obtain y t where y: "(y, t) \<in> set (fl c')" "y \<in> X" by auto
          note y1 = winv_listed [OF W y(1)]
          from y(2) nl [of c'] y(1) have "y \<in> set (pre @ post)" by (force simp: X_def)
          then obtain u where u: "(y, u) \<in> set (fl c)" by (auto simp: pp xs_def)
          note y2 = winv_listed [OF W u]
          from winv_same_start [OF W y1(1) y2(1)] y1(2) y2(2) False show False by simp
        qed
        show "\<forall>y \<in> set (map fst (fl c')). \<exists>t. (y, t, 0) \<in> set bs"
          using winv_listed(1) [OF W, of _ _ c'] by fastforce
      qed
      with l c' False show ?thesis by (simp add: lists_def fl_insert_def flip: c_def)
    qed
    show "distinct (map fst (fl_insert (bp, s) fl c'))"
      using l nl [of c] distinct_ins [of "fl c" "(bp, s)"]
      by (auto simp: lists_def fl_insert_def simp flip: c_def)
    show "sorted (map snd (fl_insert (bp, s) fl c'))"
      using l sorted_ins [of "fl c" "(bp, s)"]
      by (auto simp: lists_def fl_insert_def simp flip: c_def)
    show "\<forall>(x, t)\<in>set (fl_insert (bp, s) fl c'). (x, t, 0) \<in> set bs \<and> class_id t = c'"
      using l m by (auto simp: lists_def fl_insert_def c_def)
  qed
  with lf(1,2) f have "winv h4 bs (fl_insert (bp, s) fl)" by (simp add: winv_def)
  with res lf(3) f show ?thesis by blast
qed

lemma remove_spec:
  assumes W: "winv h bs fl" and m: "(bp, s) \<in> set (fl (class_id s))"
  shows "winv (remove_from_free_list bp h) bs (fl_remove (bp, s) fl)"
    and "keeps bs h (remove_from_free_list bp h)"
    and "mem_brk (remove_from_free_list bp h) = mem_brk h"
proof -
  define c where "c = class_id s"
  define H where "H = list_head h c"
  define xs where "xs = fl c"
  define pd where "pd = GET_PRED h bp"
  define sc where "sc = GET_SUCC h bp"
  define h' where "h' = (if pd = NULL \<and> sc = NULL then SET_HEAD H NULL h
                  else if pd = NULL \<and> sc \<noteq> NULL then SET_PRED sc NULL (SET_HEAD H sc h)
                  else if pd \<noteq> NULL \<and> sc = NULL then SET_SUCC pd NULL h
                  else SET_PRED sc pd (SET_SUCC pd sc h))"
  from W have r: "region h" and l: "lists h bs fl" by (simp_all add: winv_def)
  have c: "c < CLASS_CNT" using class_id_lt [of s] by (simp add: c_def)
  have Hh: "H + 64 = heap_listp h + 4 * c" using list_head_eq [OF r, of c] c by (simp add: H_def)
  from m have mx: "(bp, s) \<in> set xs" by (simp add: xs_def c_def)
  from split_list_first [OF mx] obtain pre' post' where
    xs: "xs = pre' @ (bp, s) # post'" and np: "(bp, s) \<notin> set pre'" by blast
  define pre where "pre = map fst pre'"
  define post where "post = map fst post'"
  have pp: "pre @ bp # post = map fst xs" by (simp add: pre_def post_def xs)
  have rm: "remove1 (bp, s) xs = pre' @ post'" using np by (simp add: xs remove1_append)
  have L: "seg h NULL (GET_HEAD h H) (pre @ bp # post) NULL"
    using l c by (simp add: lists_def pp xs_def H_def)
  have d: "distinct (pre @ bp # post)" using l by (simp add: lists_def pp xs_def)
  have xsm: "(x, t, 0) \<in> set bs" if "(x, t) \<in> set xs" for x t
    using winv_listed(1) [OF W, of x t c] that by (simp add: xs_def)
  note gb = winv_geom [OF W xsm [OF mx]]
  have blk: "\<exists>t. (x, t, 0) \<in> set bs" if "x \<in> set (pre @ bp # post)" for x
    using that xsm unfolding pp by fastforce
  have sep: "x = y \<or> x + 8 \<le> y \<or> y + 8 \<le> x"
    if "x \<in> set (pre @ bp # post)" "y \<in> set (pre @ bp # post)" for x y
  proof -
    from blk [OF that(1)] obtain t where x: "(x, t, 0) \<in> set bs" by blast
    from blk [OF that(2)] obtain u where y: "(y, u, 0) \<in> set bs" by blast
    from winv_disj [OF W x y] winv_geom(3) [OF W x] winv_geom(3) [OF W y] show ?thesis by auto
  qed
  have rng: "heap_listp h < x \<and> x < heap_listp h + 2 ^ 32" if "x \<in> set (pre @ bp # post)" for x
  proof -
    from blk [OF that] obtain t where x: "(x, t, 0) \<in> set bs" by blast
    from winv_geom(1,6) [OF W x] show ?thesis by simp
  qed
  have HH: "H + 4 \<le> heap_listp h" using Hh c by simp
  have res: "remove_from_free_list bp h = h'"
    unfolding remove_from_free_list_def
    by (simp add: gb(9) get_listp_eq h'_def pd_def sc_def Let_def flip: c_def H_def)
  note sr = seg_remove [OF L d sep rng HH, folded pd_def sc_def, folded h'_def]
  have f: "heap_listp h' = heap_listp h" "mem_brk h' = mem_brk h" "mem_max_addr h' = mem_max_addr h"
    by (simp_all add: h'_def)
  define X where "X = set (pre @ bp # post)"
  have pdX: "pd = NULL \<or> pd \<in> X" using sr(2) by (cases pre rule: rev_cases) (auto simp: X_def)
  have scX: "sc = NULL \<or> sc \<in> X" using sr(3) by (cases post) (auto simp: X_def)
  have fr: "\<forall>a. (a < list_head h c \<or> list_head h c + 4 \<le> a) \<and> (\<forall>x \<in> X. a < x \<or> x + 8 \<le> a)
      \<longrightarrow> mem h' a = mem h a"
  proof (intro allI impI, elim conjE)
    fix a
    assume that: "a < list_head h c \<or> list_head h c + 4 \<le> a" "\<forall>x \<in> X. a < x \<or> x + 8 \<le> a"
    have "pd = NULL \<or> a < pd \<or> pd + 8 \<le> a" using that(2) pdX by auto
    moreover have "sc = NULL \<or> a < sc \<or> sc + 8 \<le> a" using that(2) scX by auto
    ultimately show "mem h' a = mem h a"
      using that(1)
      by (auto simp: h'_def mem_SET_other simp flip: H_def)
  qed
  have XX: "\<forall>x \<in> X. \<exists>s. (x, s, 0) \<in> set bs" using blk by (simp add: X_def)
  note lf = links_frame [OF W XX c f fr]
  have "lists h' bs (fl_remove (bp, s) fl)"
    unfolding lists_def
  proof (intro allI conjI impI)
    fix c'
    show "seg h' NULL (GET_HEAD h' (list_head h' c')) (map fst (fl_remove (bp, s) fl c')) NULL"
      if c': "c' < CLASS_CNT"
    proof (cases "c' = c")
      case True
      have "list_head h' c = H" using f by (simp add: list_head_def H_def)
      with sr(1) True show ?thesis
        by (simp add: fl_remove_def rm pre_def post_def flip: c_def xs_def)
    next
      case False
      have "seg h' NULL (GET_HEAD h' (list_head h' c')) (map fst (fl c')) NULL
        = seg h NULL (GET_HEAD h (list_head h c')) (map fst (fl c')) NULL"
      proof (rule lf(4) [OF c' False])
        show "set (map fst (fl c')) \<inter> X = {}"
        proof (rule ccontr)
          assume "set (map fst (fl c')) \<inter> X \<noteq> {}"
          then obtain y t where y: "(y, t) \<in> set (fl c')" "y \<in> X" by auto
          note y1 = winv_listed [OF W y(1)]
          from y(2) obtain u where u: "(y, u) \<in> set (fl c)" by (auto simp: X_def pp xs_def)
          note y2 = winv_listed [OF W u]
          from winv_same_start [OF W y1(1) y2(1)] y1(2) y2(2) False show False by simp
        qed
        show "\<forall>y \<in> set (map fst (fl c')). \<exists>t. (y, t, 0) \<in> set bs"
          using winv_listed(1) [OF W, of _ _ c'] by fastforce
      qed
      with l c' False show ?thesis by (simp add: lists_def fl_remove_def flip: c_def)
    qed
    have dx: "distinct (map fst xs)" and sx: "sorted (map snd xs)"
      using l by (simp_all add: lists_def xs_def)
    have flc: "fl_remove (bp, s) fl c = pre' @ post'"
      using rm by (simp add: fl_remove_def xs_def c_def)
    have flo: "c' \<noteq> c \<Longrightarrow> fl_remove (bp, s) fl c' = fl c'"
      by (simp add: fl_remove_def c_def)
    show "distinct (map fst (fl_remove (bp, s) fl c'))"
    proof (cases "c' = c")
      case True
      with dx show ?thesis by (auto simp: flc xs)
    next
      case False
      with l show ?thesis by (simp add: flo lists_def)
    qed
    show "sorted (map snd (fl_remove (bp, s) fl c'))"
    proof (cases "c' = c")
      case True
      with sx show ?thesis by (auto simp: flc xs sorted_append)
    next
      case False
      with l show ?thesis by (simp add: flo lists_def)
    qed
    show "\<forall>(x, t)\<in>set (fl_remove (bp, s) fl c'). (x, t, 0) \<in> set bs \<and> class_id t = c'"
      using l by (auto simp: lists_def fl_remove_def c_def dest: notin_set_remove1)
  qed
  with lf(1,2) f have "winv h' bs (fl_remove (bp, s) fl)" by (simp add: winv_def)
  with res lf(3) f show "winv (remove_from_free_list bp h) bs (fl_remove (bp, s) fl)"
    and "keeps bs h (remove_from_free_list bp h)"
    and "mem_brk (remove_from_free_list bp h) = mem_brk h" by simp_all
qed

text \<open>
  A step that writes only inside the blocks \<open>mid\<close>, none of which is on a list, and
  leaves there the tags of the blocks \<open>mid'\<close>.
\<close>

lemma retag:
  assumes W: "winv h (pre @ mid @ post) fl"
    and c1: "chain h (heap_listp h + 8) pre lo" and c3: "chain h hi post (mem_brk h)"
    and lohi: "lo \<le> hi"
    and nl: "\<forall>c. \<forall>(x, t) \<in> set (fl c). (x, t, 0) \<notin> set mid"
    and f: "heap_listp h' = heap_listp h" "mem_brk h' = mem_brk h" "mem_max_addr h' = mem_max_addr h"
    and fr: "\<forall>a. a + 4 < lo \<or> hi \<le> a + 4 \<longrightarrow> mem h' a = mem h a"
    and new: "chain h' lo mid' hi"
  shows "winv h' (pre @ mid' @ post) fl" and "keeps (pre @ post) h h'"
proof -
  from W have r: "region h" and l: "lists h (pre @ mid @ post) fl" by (simp_all add: winv_def)
  have lo: "heap_listp h + 8 \<le> lo" using chain_le [OF c1] .
  have hi: "hi \<le> mem_brk h" using chain_le [OF c3] .
  have fr': "mem h' a = mem h a" if "a + 4 < lo \<or> hi \<le> a + 4" for a using fr that by blast
  have "GET h' (heap_listp h - 4) = GET h (heap_listp h - 4)"
    by (rule GET_frame) (use lo in \<open>auto intro!: fr'\<close>)
  moreover have "GET h' (heap_listp h) = GET h (heap_listp h)"
    by (rule GET_frame) (use lo in \<open>auto intro!: fr'\<close>)
  moreover have "GET h' (mem_brk h - 4) = GET h (mem_brk h - 4)"
    by (rule GET_frame) (use hi lo in \<open>auto intro!: fr'\<close>)
  ultimately have r': "region h'" using r f by (simp add: region_def)
  have c1': "chain h' (heap_listp h + 8) pre lo"
    by (rule chain_frame [OF c1]) (auto intro!: fr')
  have c3': "chain h' hi post (mem_brk h)"
    by (rule chain_frame [OF c3]) (use lo lohi in \<open>auto intro!: fr'\<close>)
  have ch: "chain h' (heap_listp h' + 8) (pre @ mid' @ post) (mem_brk h')"
    using c1' new c3' f by (auto simp: chain_append)
  have listed: "(x, t, 0) \<in> set pre \<or> (x, t, 0) \<in> set post" if "(x, t) \<in> set (fl c)" for x t c
    using lists_mem [OF l that] nl that by auto
  have cell: "mem h' a = mem h a" if "(x, t) \<in> set (fl c)" "x \<le> a" "a < x + 8" for x t c a
  proof -
    from listed [OF that(1)] show ?thesis
    proof
      assume "(x, t, 0) \<in> set pre"
      from chain_mem [OF c1 this] that show ?thesis by (intro fr') simp
    next
      assume "(x, t, 0) \<in> set post"
      from chain_mem [OF c3 this] that show ?thesis by (intro fr') simp
    qed
  qed
  have "lists h' (pre @ mid' @ post) fl"
    unfolding lists_def
  proof (intro allI conjI impI)
    fix c
    show "seg h' NULL (GET_HEAD h' (list_head h' c)) (map fst (fl c)) NULL" if c: "c < CLASS_CNT"
    proof -
      have H: "list_head h c + 64 = heap_listp h + 4 * c" using list_head_eq [OF r] c by simp
      have lh: "list_head h' c = list_head h c" using f by (simp add: list_head_def)
      have "GET h' (list_head h c) = GET h (list_head h c)"
        by (rule GET_frame) (use H c lo in \<open>auto intro!: fr'\<close>)
      then have hd: "GET_HEAD h' (list_head h' c) = GET_HEAD h (list_head h c)"
        using f lh by (simp add: GET_HEAD_def REL2ABS_def)
      have "seg h' NULL (GET_HEAD h (list_head h c)) (map fst (fl c)) NULL
        = seg h NULL (GET_HEAD h (list_head h c)) (map fst (fl c)) NULL"
      proof (rule seg_cong [OF f(1)], rule ballI)
        fix y assume "y \<in> set (map fst (fl c))"
        then obtain t where y: "(y, t) \<in> set (fl c)" by auto
        have "GET h' y = GET h y" by (rule GET_frame) (auto intro!: cell [OF y])
        moreover have "GET h' (y + 4) = GET h (y + 4)"
          by (rule GET_frame) (auto intro!: cell [OF y])
        ultimately show "GET h' y = GET h y \<and> GET h' (y + 4) = GET h (y + 4)" ..
      qed
      with hd l c show ?thesis by (simp add: lists_def)
    qed
    show "distinct (map fst (fl c))" using l by (simp add: lists_def)
    show "sorted (map snd (fl c))" using l by (simp add: lists_def)
    show "\<forall>(x, t)\<in>set (fl c). (x, t, 0) \<in> set (pre @ mid' @ post) \<and> class_id t = c"
      using listed lists_mem [OF l] by fastforce
  qed
  with r' ch show "winv h' (pre @ mid' @ post) fl" by (simp add: winv_def)
  show "keeps (pre @ post) h h'"
    unfolding keeps_def
  proof (intro conjI ballI, goal_cases)
    case 1 show ?case by (rule f)
  next
    case 2 show ?case by (rule f)
  next
    case (3 e)
    obtain b s al where e: "e = (b, s, al)" by (cases e)
    have "mem h' a = mem h a" if a: "b \<le> a" "a + 8 < b + s" for a
    proof -
      from 3 e have "(b, s, al) \<in> set pre \<or> (b, s, al) \<in> set post" by auto
      then show ?thesis
      proof
        assume "(b, s, al) \<in> set pre"
        from chain_mem [OF c1 this] a show ?thesis by (intro fr') simp
      next
        assume "(b, s, al) \<in> set post"
        from chain_mem [OF c3 this] a show ?thesis by (intro fr') simp
      qed
    qed
    then show ?case using e by auto
  qed
qed

section \<open>Reading and writing tags\<close>

lemma PACK_tag: "8 dvd s \<Longrightarrow> a < 2 \<Longrightarrow> PACK s a = s + a"
  by (simp add: PACK_def or_tag)

lemma mem_PUT_lo: "a < p \<Longrightarrow> mem (PUT p v h) a = mem h a"
  by (simp add: mem_PUT_other)

lemma mem_PUT_hi: "p + 4 \<le> a \<Longrightarrow> mem (PUT p v h) a = mem h a"
  by (simp add: mem_PUT_other)

lemma GET_PUT_val: "v < 2 ^ 32 \<Longrightarrow> GET (PUT p v h) p = v"
  by (simp add: GET_PUT_same)

lemma winv_start:
  assumes "winv h ((bp, s, a) # post) fl"
  shows "bp = heap_listp h + 8"
  using assms by (simp add: winv_def)

lemma winv_chain_mid:
  assumes "winv h (pre @ mid @ post) fl"
  obtains lo hi where "chain h (heap_listp h + 8) pre lo" "chain h lo mid hi"
    "chain h hi post (mem_brk h)"
  using assms by (auto simp: winv_def chain_append)

lemma prev_read_first:
  assumes W: "winv h ((bp, s, a) # post) fl"
  shows "PREV_BLKP h bp = heap_listp h" "GET_ALLOC h (HDRP (PREV_BLKP h bp)) = 1"
proof -
  from W have r: "region h" and b: "bp = heap_listp h + 8" by (simp_all add: winv_def)
  have "GET_SIZE h (bp - 8) = 8" using r b by (simp add: region_def GET_SIZE_eq)
  then show p: "PREV_BLKP h bp = heap_listp h" using b by (simp add: PREV_BLKP_def)
  show "GET_ALLOC h (HDRP (PREV_BLKP h bp)) = 1"
    using r by (simp add: p HDRP_def region_def GET_ALLOC_eq)
qed

lemma prev_read:
  assumes W: "winv h (pre @ (pb, s1, a1) # (bp, s, a) # post) fl"
  shows "PREV_BLKP h bp = pb" "GET_ALLOC h (HDRP (PREV_BLKP h bp)) = a1"
    "GET_SIZE h (HDRP (PREV_BLKP h bp)) = s1" "pb + s1 = bp"
proof -
  from W have c: "chain h (heap_listp h + 8) (pre @ (pb, s1, a1) # (bp, s, a) # post) (mem_brk h)"
    by (simp add: winv_def)
  then show e: "pb + s1 = bp" by (auto simp: chain_append)
  have m: "(pb, s1, a1) \<in> set (pre @ (pb, s1, a1) # (bp, s, a) # post)" by simp
  note g = winv_geom [OF W m]
  have "GET_SIZE h (bp - 8) = s1" using g e by (auto intro!: GET_SIZE_tag [of _ _ _ a1])
  then show p: "PREV_BLKP h bp = pb" using e by (auto simp: PREV_BLKP_def)
  show "GET_ALLOC h (HDRP (PREV_BLKP h bp)) = a1" using g by (simp add: p)
  show "GET_SIZE h (HDRP (PREV_BLKP h bp)) = s1" using g by (simp add: p)
qed

lemma next_read_last:
  assumes W: "winv h (pre @ [(bp, s, a)]) fl"
  shows "NEXT_BLKP h bp = bp + s" "GET_ALLOC h (HDRP (NEXT_BLKP h bp)) = 1" "bp + s = mem_brk h"
proof -
  have m: "(bp, s, a) \<in> set (pre @ [(bp, s, a)])" by simp
  note g = winv_geom [OF W m]
  from W have r: "region h" and c: "chain h (heap_listp h + 8) (pre @ [(bp, s, a)]) (mem_brk h)"
    by (simp_all add: winv_def)
  from chain_last [OF c] show e: "bp + s = mem_brk h" .
  show n: "NEXT_BLKP h bp = bp + s" using g by (simp add: NEXT_BLKP_def HDRP_def)
  show "GET_ALLOC h (HDRP (NEXT_BLKP h bp)) = 1"
    using r by (simp add: n e HDRP_def region_def GET_ALLOC_eq)
qed

lemma next_read:
  assumes W: "winv h (pre @ (bp, s, a) # (nb, s2, a2) # post) fl"
  shows "NEXT_BLKP h bp = nb" "GET_ALLOC h (HDRP (NEXT_BLKP h bp)) = a2"
    "GET_SIZE h (HDRP (NEXT_BLKP h bp)) = s2" "bp + s = nb"
proof -
  from W have c: "chain h (heap_listp h + 8) (pre @ (bp, s, a) # (nb, s2, a2) # post) (mem_brk h)"
    by (simp add: winv_def)
  then show e: "bp + s = nb" by (auto simp: chain_append)
  have m: "(bp, s, a) \<in> set (pre @ (bp, s, a) # (nb, s2, a2) # post)" by simp
  have m2: "(nb, s2, a2) \<in> set (pre @ (bp, s, a) # (nb, s2, a2) # post)" by simp
  note g = winv_geom [OF W m]
  note g2 = winv_geom [OF W m2]
  show n: "NEXT_BLKP h bp = nb" using g e by (simp add: NEXT_BLKP_def HDRP_def)
  show "GET_ALLOC h (HDRP (NEXT_BLKP h bp)) = a2" using g2 by (simp add: n)
  show "GET_SIZE h (HDRP (NEXT_BLKP h bp)) = s2" using g2 by (simp add: n)
qed

text \<open>Writing the header and the footer of a block, as every routine does it.\<close>

lemma put_tags:
  fixes h :: heap
  assumes s: "16 \<le> s" "8 dvd s" "s < 2 ^ 32" and a: "a < 2" and b: "4 \<le> b"
  defines "h1 \<equiv> PUT (HDRP b) (PACK s a) h"
  defines "h2 \<equiv> PUT (FTRP h1 b) (PACK s a) h1"
  shows "chain h2 b [(b, s, a)] (b + s)"
    and "FTRP h1 b = b + s - 8"
    and "\<forall>x. x + 4 < b \<or> b + s \<le> x + 4 \<longrightarrow> mem h2 x = mem h x"
    and "\<forall>x. b \<le> x \<and> x + 8 < b + s \<longrightarrow> mem h2 x = mem h x"
    and "heap_listp h2 = heap_listp h" "mem_brk h2 = mem_brk h" "mem_max_addr h2 = mem_max_addr h"
proof -
  have v: "PACK s a = s + a" "s + a < 2 ^ 32"
    using s a by (auto simp: PACK_tag elim!: dvdE)
  have g1: "GET h1 (b - 4) = s + a" using v by (simp add: h1_def HDRP_def GET_PUT_val)
  then have "GET_SIZE h1 (HDRP b) = s" using s a by (simp add: HDRP_def GET_SIZE_tag)
  then show f: "FTRP h1 b = b + s - 8" by (simp add: FTRP_def)
  have g2: "GET h2 (b + s - 8) = s + a" using v by (simp add: h2_def f GET_PUT_val)
  have g3: "GET h2 (b - 4) = s + a"
    using g1 s b by (simp add: h2_def f GET_PUT_hi)
  from g2 g3 s a show "chain h2 b [(b, s, a)] (b + s)" by simp
  have m2: "mem h2 x = mem h1 x" if "x + 8 < b + s \<or> b + s \<le> x + 4" for x
    using that s b by (auto simp: h2_def f mem_PUT_lo mem_PUT_hi)
  have m1: "mem h1 x = mem h x" if "x + 4 < b \<or> b \<le> x" for x
    using that s b by (auto simp: h1_def HDRP_def mem_PUT_lo mem_PUT_hi)
  show "\<forall>x. x + 4 < b \<or> b + s \<le> x + 4 \<longrightarrow> mem h2 x = mem h x"
    using s b by (auto simp: m1 m2)
  show "\<forall>x. b \<le> x \<and> x + 8 < b + s \<longrightarrow> mem h2 x = mem h x"
    using s b by (auto simp: m1 m2)
  show "heap_listp h2 = heap_listp h" "mem_brk h2 = mem_brk h" "mem_max_addr h2 = mem_max_addr h"
    by (simp_all add: h2_def h1_def)
qed

section \<open>Neighbours\<close>

lemma no_adj_Cons:
  "no_adj (x # xs) \<longleftrightarrow> no_adj xs \<and> (xs = [] \<or> \<not> (snd (snd x) = 0 \<and> snd (snd (hd xs)) = 0))"
  by (cases x; cases xs) auto

lemma no_adj_append:
  "no_adj (xs @ ys) \<longleftrightarrow>
     no_adj xs \<and> no_adj ys
     \<and> (xs = [] \<or> ys = [] \<or> \<not> (snd (snd (last xs)) = 0 \<and> snd (snd (hd ys)) = 0))"
proof (induction xs)
  case Nil
  show ?case by simp
next
  case (Cons x xs)
  show ?case
    by (auto simp: no_adj_Cons Cons.IH hd_append simp del: no_adj.simps)
qed

section \<open>Membership in the ghost index\<close>

lemma in_fl_remove: "(x, t) \<in> set (fl_remove e fl c) \<Longrightarrow> (x, t) \<in> set (fl c)"
  using set_remove1_subset [of e "fl c"] by (auto simp: fl_remove_def split: if_splits)

lemma in_fl_remove_other: "(x, t) \<in> set (fl c) \<Longrightarrow> (x, t) \<noteq> e \<Longrightarrow> (x, t) \<in> set (fl_remove e fl c)"
  by (auto simp: fl_remove_def)

lemma in_fl_insert:
  "(x, t) \<in> set (fl_insert e fl c) \<longleftrightarrow> (x, t) \<in> set (fl c) \<or> ((x, t) = e \<and> c = class_id (snd e))"
  by (auto simp: fl_insert_def)

lemma not_listed_after_remove:
  assumes W: "winv h bs fl" and m: "(bp, s, 0) \<in> set bs"
  shows "bp \<notin> fst ` set (fl_remove (bp, s) fl c)"
proof
  assume "bp \<in> fst ` set (fl_remove (bp, s) fl c)"
  then obtain t where t: "(bp, t) \<in> set (fl_remove (bp, s) fl c)" by force
  from in_fl_remove [OF t] have i: "(bp, t) \<in> set (fl c)" .
  note w = winv_listed [OF W i]
  from winv_same_start [OF W m w(1)] have ts: "t = s" by simp
  with w have c: "c = class_id s" by simp
  from W have "distinct (map fst (fl c))" by (simp add: winv_def lists_def)
  then have "distinct (fl c)" by (rule distinct_map [THEN iffD1, THEN conjunct1])
  with t ts c show False by (simp add: fl_remove_def)
qed

lemma keeps_refl: "keeps bs h h"
  by (simp add: keeps_def)

lemma keeps_trans: "keeps bs h h1 \<Longrightarrow> keeps bs h1 h2 \<Longrightarrow> keeps bs h h2"
  by (fastforce simp: keeps_def)

lemma keeps_mono:
  "keeps A h h' \<Longrightarrow> \<forall>b s. (b, s, 1) \<in> set C \<longrightarrow> (b, s, 1) \<in> set A \<Longrightarrow> keeps C h h'"
  by (fastforce simp: keeps_def)

lemma winv_size_bound:
  assumes W: "winv h bs fl" and lo: "heap_listp h \<le> lo" and hi: "lo + n \<le> mem_brk h"
  shows "n < 2 ^ 32"
  using W lo hi by (simp add: winv_def region_def)

section \<open>Coalescing\<close>

lemma coalesce_case1:
  assumes W: "winv h (pre @ (bp, s, 0) # post) fl"
    and pa: "pre = [] \<or> snd (snd (last pre)) = 1"
    and na: "post = [] \<or> snd (snd (hd post)) = 1"
  shows "coalesce bp h = Some (bp, h)"
proof -
  have p: "GET_ALLOC h (HDRP (PREV_BLKP h bp)) = 1"
  proof (cases pre rule: rev_cases)
    case Nil
    with W show ?thesis using prev_read_first(2) [of h bp s 0 post fl] by simp
  next
    case (snoc pre' e)
    obtain pb s1 a1 where e: "e = (pb, s1, a1)" by (cases e)
    with pa snoc have "a1 = 1" by simp
    with W snoc e show ?thesis using prev_read(2) [of h pre' pb s1 a1 bp s 0 post fl] by simp
  qed
  have n: "GET_ALLOC h (HDRP (NEXT_BLKP h bp)) = 1"
  proof (cases post)
    case Nil
    with W show ?thesis using next_read_last(2) [of h pre bp s 0 fl] by simp
  next
    case (Cons e post')
    obtain nb s2 a2 where e: "e = (nb, s2, a2)" by (cases e)
    with na Cons have "a2 = 1" by simp
    with W Cons e show ?thesis using next_read(2) [of h pre bp s 0 nb s2 a2 post' fl] by simp
  qed
  show ?thesis by (simp add: coalesce_def p n)
qed

lemma chain_dvd: "chain h p bs q \<Longrightarrow> 8 dvd (q - p)"
proof (induction bs arbitrary: p)
  case Nil
  then show ?case by simp
next
  case (Cons x bs)
  obtain b s a where x: "x = (b, s, a)" by (cases x)
  from Cons.prems x have c: "chain h (p + s) bs q" and s: "8 dvd s" by auto
  from chain_le [OF c] have "q - p = s + (q - (p + s))" by simp
  with Cons.IH [OF c] s show ?case by simp
qed

lemma chain_nonempty: "chain h p bs q \<Longrightarrow> bs \<noteq> [] \<Longrightarrow> p + 16 \<le> q"
proof (cases bs)
  case Nil
  assume "bs \<noteq> []" with Nil show ?thesis by simp
next
  case (Cons x xs)
  assume c: "chain h p bs q"
  obtain b s a where x: "x = (b, s, a)" by (cases x)
  from c Cons x have "chain h (p + s) xs q" "16 \<le> s" by auto
  with chain_le [of h "p + s" xs q] show ?thesis by simp
qed

text \<open>Merging the blocks \<open>mid\<close>, none of them on a list, into one free block.\<close>

lemma merge_tags:
  fixes h :: heap
  assumes W: "winv h (pre @ mid @ post) fl"
    and c1: "chain h (heap_listp h + 8) pre lo" and c2: "chain h lo mid hi"
    and c3: "chain h hi post (mem_brk h)"
    and ne: "mid \<noteq> []"
    and nl: "\<forall>c. \<forall>(x, t) \<in> set (fl c). (x, t, 0) \<notin> set mid"
  defines "h' \<equiv> PUT (hi - 8) (PACK (hi - lo) 0) (PUT (lo - 4) (PACK (hi - lo) 0) h)"
  shows "winv h' (pre @ (lo, hi - lo, 0) # post) fl" and "keeps (pre @ post) h h'"
    and "mem_brk h' = mem_brk h" and "heap_listp h' = heap_listp h"
    and "\<forall>x. lo \<le> x \<and> x + 8 < hi \<longrightarrow> mem h' x = mem h x"
proof -
  define n where "n = hi - lo"
  have lo: "heap_listp h + 8 \<le> lo" using chain_le [OF c1] .
  have hi: "hi \<le> mem_brk h" using chain_le [OF c3] .
  have n16: "lo + 16 \<le> hi" using chain_nonempty [OF c2 ne] .
  have n8: "8 dvd n" using chain_dvd [OF c2] by (simp add: n_def)
  have nb: "n < 2 ^ 32"
    by (rule winv_size_bound [OF W, of lo]) (use lo hi n16 in \<open>simp_all add: n_def\<close>)
  have v: "PACK n 0 = n" using n8 by (simp add: PACK_tag)
  have f: "heap_listp h' = heap_listp h" "mem_brk h' = mem_brk h" "mem_max_addr h' = mem_max_addr h"
    by (simp_all add: h'_def)
  have hn: "hi = lo + n" using n16 by (simp add: n_def)
  have h'n: "h' = PUT (lo + n - 8) n (PUT (lo - 4) n h)"
    unfolding h'_def hn using v by simp
  have n16': "16 \<le> n" using n16 by (simp add: n_def)
  have g1: "GET h' (lo - 4) = n + 0"
    using n16' nb lo by (simp add: h'n GET_PUT_hi GET_PUT_val)
  have g2: "GET h' (lo + n - 8) = n + 0"
    using n16' nb by (simp add: h'n GET_PUT_val)
  have new: "chain h' lo [(lo, n, 0)] hi"
    using g1 g2 n8 n16 by (simp add: n_def)
  have fr: "\<forall>a. a + 4 < lo \<or> hi \<le> a + 4 \<longrightarrow> mem h' a = mem h a"
    using n16 lo by (auto simp: h'_def mem_PUT_lo mem_PUT_hi)
  from retag [OF W c1 c3 _ nl f fr new] n16
  show "winv h' (pre @ (lo, hi - lo, 0) # post) fl" and "keeps (pre @ post) h h'"
    by (simp_all add: n_def)
  show "mem_brk h' = mem_brk h" "heap_listp h' = heap_listp h" by (rule f)+
  show "\<forall>x. lo \<le> x \<and> x + 8 < hi \<longrightarrow> mem h' x = mem h x"
    using n16 lo by (auto simp: h'_def mem_PUT_lo mem_PUT_hi)
qed

lemma merge_step:
  fixes h :: heap
  assumes W: "winv h (pre @ mid @ post) fl"
    and c1: "chain h (heap_listp h + 8) pre lo" and c2: "chain h lo mid hi"
    and c3: "chain h hi post (mem_brk h)"
    and ne: "mid \<noteq> []"
    and nl: "\<forall>c. \<forall>(x, t) \<in> set (fl c). (x, t, 0) \<notin> set mid"
    and C: "\<forall>(b, t, a) \<in> set (pre @ post). a = 0 \<longrightarrow> (b, t) \<in> set (fl (class_id t))"
    and N: "no_adj (pre @ (lo, hi - lo, 0) # post)"
  defines "h' \<equiv> PUT (hi - 8) (PACK (hi - lo) 0) (PUT (lo - 4) (PACK (hi - lo) 0) h)"
  shows "\<exists>h''. insert_to_free_list lo h' = Some h''
           \<and> ginv h'' (pre @ (lo, hi - lo, 0) # post) (fl_insert (lo, hi - lo) fl)
           \<and> keeps (pre @ post) h h'' \<and> mem_brk h'' = mem_brk h"
proof -
  note mt = merge_tags [OF W c1 c2 c3 ne nl, folded h'_def]
  have n16: "lo + 16 \<le> hi" using chain_nonempty [OF c2 ne] .
  have nlo: "lo \<notin> fst ` set (fl c)" for c
  proof
    assume "lo \<in> fst ` set (fl c)"
    then obtain t where t: "(lo, t) \<in> set (fl c)" by force
    from winv_listed(1) [OF W t] nl t
    have "(lo, t, 0) \<in> set pre \<or> (lo, t, 0) \<in> set post" by auto
    then show False
    proof
      assume "(lo, t, 0) \<in> set pre"
      from chain_mem [OF c1 this] show False by auto
    next
      assume "(lo, t, 0) \<in> set post"
      from chain_mem [OF c3 this] n16 show False by auto
    qed
  qed
  have m: "(lo, hi - lo, 0) \<in> set (pre @ (lo, hi - lo, 0) # post)" by simp
  from insert_spec [OF mt(1) m nlo] obtain h'' where
    i: "insert_to_free_list lo h' = Some h''"
    and W'': "winv h'' (pre @ (lo, hi - lo, 0) # post) (fl_insert (lo, hi - lo) fl)"
    and k: "keeps (pre @ (lo, hi - lo, 0) # post) h' h''" and b: "mem_brk h'' = mem_brk h'"
    by blast
  have "complete (pre @ (lo, hi - lo, 0) # post) (fl_insert (lo, hi - lo) fl)"
    unfolding complete_def
  proof (clarify)
    fix b t
    assume "(b, t, 0) \<in> set (pre @ (lo, hi - lo, 0) # post)"
    then have "(b, t) = (lo, hi - lo) \<or> (b, t, 0) \<in> set (pre @ post)" by auto
    then show "(b, t) \<in> set (fl_insert (lo, hi - lo) fl (class_id t))"
    proof
      assume "(b, t) = (lo, hi - lo)"
      then show ?thesis by (simp add: in_fl_insert)
    next
      assume "(b, t, 0) \<in> set (pre @ post)"
      with C have "(b, t) \<in> set (fl (class_id t))" by blast
      then show ?thesis by (simp add: in_fl_insert)
    qed
  qed
  with W'' N have "ginv h'' (pre @ (lo, hi - lo, 0) # post) (fl_insert (lo, hi - lo) fl)"
    by (simp add: ginv_def)
  moreover have "keeps (pre @ post) h h''"
    by (rule keeps_trans [OF mt(2)]) (rule keeps_mono [OF k], auto)
  ultimately show ?thesis using i b mt(3) by auto
qed

lemma coalesce_case2:
  assumes W: "winv h (pre @ (bp, s, 0) # (nb, s2, 0) # post) fl"
    and C: "complete (pre @ (bp, s, 0) # (nb, s2, 0) # post) fl"
    and pa: "pre = [] \<or> snd (snd (last pre)) = 1"
    and N: "no_adj (pre @ (bp, s, 1) # (nb, s2, 0) # post)"
  shows "\<exists>h'. coalesce bp h = Some (bp, h')
           \<and> ginv h' (pre @ (bp, s + s2, 0) # post)
                (fl_insert (bp, s + s2) (fl_remove (nb, s2) (fl_remove (bp, s) fl)))
           \<and> keeps (pre @ post) h h' \<and> mem_brk h' = mem_brk h"
proof -
  define bs where "bs = pre @ (bp, s, 0) # (nb, s2, 0) # post"
  define h1 where "h1 = remove_from_free_list bp h"
  define h2 where "h2 = remove_from_free_list nb h1"
  define fl1 where "fl1 = fl_remove (bp, s) fl"
  define fl2 where "fl2 = fl_remove (nb, s2) fl1"
  note W0 = W [folded bs_def]
  have mb: "(bp, s, 0) \<in> set bs" and mn: "(nb, s2, 0) \<in> set bs" by (simp_all add: bs_def)
  have e: "bp + s = nb" using next_read(4) [OF W] .
  have ne: "(nb, s2) \<noteq> (bp, s)" using e winv_geom(3) [OF W0 mb] by auto
  have p: "GET_ALLOC h (HDRP (PREV_BLKP h bp)) = 1"
  proof (cases pre rule: rev_cases)
    case Nil
    with W show ?thesis using prev_read_first(2) [of h bp s 0 _ fl] by simp
  next
    case (snoc pre' x)
    obtain pb s1 a1 where x: "x = (pb, s1, a1)" by (cases x)
    with pa snoc have "a1 = 1" by simp
    with W snoc x show ?thesis using prev_read(2) [of h pre' pb s1 a1 bp s 0 _ fl] by simp
  qed
  have n: "NEXT_BLKP h bp = nb" "GET_ALLOC h (HDRP nb) = 0"
    using next_read [OF W] by simp_all
  have l1: "(bp, s) \<in> set (fl (class_id s))" using C by (auto simp: complete_def)
  note r1 = remove_spec [OF W0 l1, folded h1_def fl1_def]
  have l2: "(nb, s2) \<in> set (fl1 (class_id s2))"
    using C ne by (auto simp: complete_def fl1_def intro!: in_fl_remove_other)
  note r2 = remove_spec [OF r1(1) l2, folded h2_def fl2_def]
  note W2 = r2(1) [unfolded bs_def]
  have n2: "NEXT_BLKP h2 bp = nb" "GET_SIZE h2 (HDRP nb) = s2"
    using next_read [OF W2] by simp_all
  from r2(1) have ch: "chain h2 (heap_listp h2 + 8) (pre @ [(bp, s, 0), (nb, s2, 0)] @ post) (mem_brk h2)"
    by (simp add: winv_def bs_def)
  then obtain lo hi where c1: "chain h2 (heap_listp h2 + 8) pre lo"
    and c2: "chain h2 lo [(bp, s, 0), (nb, s2, 0)] hi" and c3: "chain h2 hi post (mem_brk h2)"
    unfolding chain_append by blast
  from c2 have lo: "lo = bp" and hi: "hi = bp + (s + s2)" by auto
  have W2': "winv h2 (pre @ [(bp, s, 0), (nb, s2, 0)] @ post) fl2" using W2 by simp
  have nl: "\<forall>c. \<forall>(x, t) \<in> set (fl2 c). (x, t, 0) \<notin> set [(bp, s, 0), (nb, s2, 0)]"
  proof (intro allI ballI, clarify)
    fix c x t
    assume xt: "(x, t) \<in> set (fl2 c)" and m: "(x, t, 0) \<in> set [(bp, s, 0), (nb, s2, 0)]"
    from m have "(x, t) = (bp, s) \<or> (x, t) = (nb, s2)" by auto
    then show False
    proof
      assume "(x, t) = (bp, s)"
      with xt in_fl_remove [of bp s "(nb, s2)" fl1 c] not_listed_after_remove [OF W0 mb, of c]
      show False by (force simp: fl2_def fl1_def)
    next
      assume "(x, t) = (nb, s2)"
      with xt not_listed_after_remove [OF r1(1) mn, of c]
      show False by (force simp: fl2_def)
    qed
  qed
  have st: "distinct (map fst bs)"
    using W0 chain_distinct [of h "heap_listp h + 8" bs "mem_brk h"] by (simp add: winv_def)
  have C2: "\<forall>(b, t, a) \<in> set (pre @ post). a = 0 \<longrightarrow> (b, t) \<in> set (fl2 (class_id t))"
  proof (clarify)
    fix b t
    assume m: "(b, t, 0) \<in> set (pre @ post)"
    then have "(b, t, 0) \<in> set bs" by (auto simp: bs_def)
    with C have i: "(b, t) \<in> set (fl (class_id t))" unfolding complete_def bs_def by blast
    from m st have "b \<noteq> bp" "b \<noteq> nb" by (auto simp: bs_def rev_image_eqI)
    with i show "(b, t) \<in> set (fl2 (class_id t))"
      by (auto simp: fl2_def fl1_def intro!: in_fl_remove_other)
  qed
  have N2: "no_adj (pre @ (lo, hi - lo, 0) # post)"
    using N pa by (cases post) (auto simp: no_adj_append lo hi no_adj_Cons simp del: no_adj.simps)
  from merge_step [OF W2' c1 c2 c3 _ nl C2 N2] obtain h' where
    i: "insert_to_free_list lo (PUT (hi - 8) (PACK (hi - lo) 0) (PUT (lo - 4) (PACK (hi - lo) 0) h2))
        = Some h'"
    and G: "ginv h' (pre @ (lo, hi - lo, 0) # post) (fl_insert (lo, hi - lo) fl2)"
    and k: "keeps (pre @ post) h2 h'" and b: "mem_brk h' = mem_brk h2"
    by auto
  define h3 where "h3 = PUT (HDRP bp) (PACK (s + s2) 0) h2"
  have sb: "s + s2 < 2 ^ 32"
    by (rule winv_size_bound [OF r2(1), of bp])
      (use winv_geom(1) [OF r2(1) mb] winv_geom(2) [OF r2(1) mn] e in simp_all)
  have s8: "8 dvd (s + s2)" using winv_geom(4) [OF W0 mb] winv_geom(4) [OF W0 mn] by simp
  have "GET h3 (HDRP bp) = s + s2 + 0" using sb s8 by (simp add: h3_def PACK_tag GET_PUT_val)
  then have "GET_SIZE h3 (HDRP bp) = s + s2" using s8 by (rule GET_SIZE_tag) simp
  then have f3: "FTRP h3 bp = bp + (s + s2) - 8" by (simp add: FTRP_def)
  have co: "coalesce bp h = do { h5 \<leftarrow> insert_to_free_list bp
       (PUT (bp + (s + s2) - 8) (PACK (s + s2) 0) (PUT (HDRP bp) (PACK (s + s2) 0) h2)); Some (bp, h5) }"
    unfolding coalesce_def
    by (simp add: p n winv_geom(9) [OF W0 mb] Let_def n2 f3 [unfolded h3_def]
      flip: h1_def h2_def)
  have kk: "keeps (pre @ post) h h'"
    by (rule keeps_trans [OF _ k], rule keeps_trans [of _ _ h1])
       (rule keeps_mono [OF r1(2)], simp add: bs_def, rule keeps_mono [OF r2(2)], simp add: bs_def)
  from i G b r1(3) r2(3) kk show ?thesis
    by (simp add: co lo hi fl2_def fl1_def HDRP_def)
qed

lemma next_alloc_read:
  assumes W: "winv h (pre @ (bp, s, a) # post) fl"
  shows "GET_ALLOC h (HDRP (NEXT_BLKP h bp)) = (if post = [] then 1 else snd (snd (hd post)))"
proof (cases post)
  case Nil
  with W show ?thesis using next_read_last(2) [of h pre bp s a fl] by simp
next
  case (Cons e post')
  obtain nb s2 a2 where e: "e = (nb, s2, a2)" by (cases e)
  with W Cons show ?thesis using next_read(2) [of h pre bp s a nb s2 a2 post' fl] by simp
qed

lemma coalesce_case3:
  assumes W: "winv h (pre @ (pb, s1, 0) # (bp, s, 0) # post) fl"
    and C: "complete (pre @ (pb, s1, 0) # (bp, s, 0) # post) fl"
    and na: "post = [] \<or> snd (snd (hd post)) = 1"
    and N: "no_adj (pre @ (pb, s1, 0) # (bp, s, 1) # post)"
  shows "\<exists>h'. coalesce bp h = Some (pb, h')
           \<and> ginv h' (pre @ (pb, s + s1, 0) # post)
                (fl_insert (pb, s + s1) (fl_remove (pb, s1) (fl_remove (bp, s) fl)))
           \<and> keeps (pre @ post) h h' \<and> mem_brk h' = mem_brk h"
proof -
  define bs where "bs = pre @ (pb, s1, 0) # (bp, s, 0) # post"
  define h1 where "h1 = remove_from_free_list bp h"
  define h2 where "h2 = remove_from_free_list pb h1"
  define fl1 where "fl1 = fl_remove (bp, s) fl"
  define fl2 where "fl2 = fl_remove (pb, s1) fl1"
  note W0 = W [folded bs_def]
  have mb: "(bp, s, 0) \<in> set bs" and mp: "(pb, s1, 0) \<in> set bs" by (simp_all add: bs_def)
  have e: "pb + s1 = bp" using prev_read(4) [OF W] .
  note gb = winv_geom [OF W0 mb]
  note gp = winv_geom [OF W0 mp]
  have ne: "(pb, s1) \<noteq> (bp, s)" using e gp(3) by auto
  have p: "PREV_BLKP h bp = pb" "GET_ALLOC h (HDRP pb) = 0"
    using prev_read [OF W] by simp_all
  have W': "winv h ((pre @ [(pb, s1, 0)]) @ (bp, s, 0) # post) fl" using W by simp
  have n: "GET_ALLOC h (HDRP (NEXT_BLKP h bp)) = 1"
    using next_alloc_read [OF W'] na by auto
  have l1: "(bp, s) \<in> set (fl (class_id s))" using C by (auto simp: complete_def)
  note r1 = remove_spec [OF W0 l1, folded h1_def fl1_def]
  have l2: "(pb, s1) \<in> set (fl1 (class_id s1))"
    using C ne by (auto simp: complete_def fl1_def intro!: in_fl_remove_other)
  note r2 = remove_spec [OF r1(1) l2, folded h2_def fl2_def]
  note W2 = r2(1) [unfolded bs_def]
  note gb2 = winv_geom [OF r2(1) mb]
  note gp2 = winv_geom [OF r2(1) mp]
  have p2: "PREV_BLKP h2 bp = pb" "GET_SIZE h2 (HDRP pb) = s1"
    using prev_read [OF W2] by simp_all
  from r2(1) have ch: "chain h2 (heap_listp h2 + 8) (pre @ [(pb, s1, 0), (bp, s, 0)] @ post) (mem_brk h2)"
    by (simp add: winv_def bs_def)
  then obtain lo hi where c1: "chain h2 (heap_listp h2 + 8) pre lo"
    and c2: "chain h2 lo [(pb, s1, 0), (bp, s, 0)] hi" and c3: "chain h2 hi post (mem_brk h2)"
    unfolding chain_append by blast
  from c2 have lo: "lo = pb" and hi: "hi = pb + (s1 + s)" by auto
  have W2': "winv h2 (pre @ [(pb, s1, 0), (bp, s, 0)] @ post) fl2" using W2 by simp
  have nl: "\<forall>c. \<forall>(x, t) \<in> set (fl2 c). (x, t, 0) \<notin> set [(pb, s1, 0), (bp, s, 0)]"
  proof (intro allI ballI, clarify)
    fix c x t
    assume xt: "(x, t) \<in> set (fl2 c)" and m: "(x, t, 0) \<in> set [(pb, s1, 0), (bp, s, 0)]"
    from m have "(x, t) = (bp, s) \<or> (x, t) = (pb, s1)" by auto
    then show False
    proof
      assume "(x, t) = (bp, s)"
      with xt in_fl_remove [of bp s "(pb, s1)" fl1 c] not_listed_after_remove [OF W0 mb, of c]
      show False by (force simp: fl2_def fl1_def)
    next
      assume "(x, t) = (pb, s1)"
      with xt not_listed_after_remove [OF r1(1) mp, of c]
      show False by (force simp: fl2_def)
    qed
  qed
  have st: "distinct (map fst bs)"
    using W0 chain_distinct [of h "heap_listp h + 8" bs "mem_brk h"] by (simp add: winv_def)
  have C2: "\<forall>(b, t, a) \<in> set (pre @ post). a = 0 \<longrightarrow> (b, t) \<in> set (fl2 (class_id t))"
  proof (clarify)
    fix b t
    assume m: "(b, t, 0) \<in> set (pre @ post)"
    then have "(b, t, 0) \<in> set bs" by (auto simp: bs_def)
    with C have i: "(b, t) \<in> set (fl (class_id t))" unfolding complete_def bs_def by blast
    from m st have "b \<noteq> bp" "b \<noteq> pb" by (auto simp: bs_def rev_image_eqI)
    with i show "(b, t) \<in> set (fl2 (class_id t))"
      by (auto simp: fl2_def fl1_def intro!: in_fl_remove_other)
  qed
  have N2: "no_adj (pre @ (lo, hi - lo, 0) # post)"
    using N na
    by (cases post) (auto simp: no_adj_append lo hi no_adj_Cons simp del: no_adj.simps)
  from merge_step [OF W2' c1 c2 c3 _ nl C2 N2] obtain h' where
    i: "insert_to_free_list lo (PUT (hi - 8) (PACK (hi - lo) 0) (PUT (lo - 4) (PACK (hi - lo) 0) h2))
        = Some h'"
    and G: "ginv h' (pre @ (lo, hi - lo, 0) # post) (fl_insert (lo, hi - lo) fl2)"
    and k: "keeps (pre @ post) h2 h'" and b: "mem_brk h' = mem_brk h2"
    by auto
  define h3 where "h3 = PUT (HDRP pb) (PACK (s + s1) 0) h2"
  define h4 where "h4 = PUT (bp + s - 8) (PACK (s + s1) 0) h3"
  have "GET h3 (bp - 4) = GET h2 (bp - 4)"
    using e gp(3) by (simp add: h3_def HDRP_def GET_PUT_lo)
  then have "GET_SIZE h3 (HDRP bp) = s" using gb2(7,4) by (simp add: HDRP_def GET_SIZE_tag)
  then have f3: "FTRP h3 bp = bp + s - 8" by (simp add: FTRP_def)
  have "GET h4 (bp - 8) = GET h2 (bp - 8)"
    using e gp(3) gb(3) by (simp add: h4_def h3_def HDRP_def GET_PUT_lo GET_PUT_hi)
  also have "\<dots> = s1 + 0" using gp2(8) e by auto
  finally have "GET_SIZE h4 (bp - 8) = s1" using gp(4) by (rule GET_SIZE_tag) simp
  then have p4: "PREV_BLKP h4 bp = pb" using e by (auto simp: PREV_BLKP_def)
  have co: "coalesce bp h = do { h5 \<leftarrow> insert_to_free_list pb h4; Some (pb, h5) }"
    unfolding coalesce_def
    by (simp add: p n gb(9) Let_def p2 f3 [unfolded h3_def] p4 [unfolded h4_def h3_def]
        h4_def h3_def flip: h1_def h2_def)
  have kk: "keeps (pre @ post) h h'"
    by (rule keeps_trans [OF _ k], rule keeps_trans [of _ _ h1])
       (rule keeps_mono [OF r1(2)], simp add: bs_def, rule keeps_mono [OF r2(2)], simp add: bs_def)
  have hh: "hi - 8 = bp + s - 8" "pb - 4 = HDRP pb" "hi - pb = s + s1"
    using e by (auto simp: hi HDRP_def)
  from i G b r1(3) r2(3) kk show ?thesis
    by (simp add: co lo hh h4_def h3_def fl2_def fl1_def)
qed

lemma coalesce_case4:
  assumes W: "winv h (pre @ (pb, s1, 0) # (bp, s, 0) # (nb, s2, 0) # post) fl"
    and C: "complete (pre @ (pb, s1, 0) # (bp, s, 0) # (nb, s2, 0) # post) fl"
    and N: "no_adj (pre @ (pb, s1, 0) # (bp, s, 1) # (nb, s2, 0) # post)"
  shows "\<exists>h'. coalesce bp h = Some (pb, h')
           \<and> ginv h' (pre @ (pb, s + (s1 + s2), 0) # post)
                (fl_insert (pb, s + (s1 + s2))
                   (fl_remove (nb, s2) (fl_remove (bp, s) (fl_remove (pb, s1) fl))))
           \<and> keeps (pre @ post) h h' \<and> mem_brk h' = mem_brk h"
proof -
  define bs where "bs = pre @ (pb, s1, 0) # (bp, s, 0) # (nb, s2, 0) # post"
  define h1 where "h1 = remove_from_free_list pb h"
  define h2 where "h2 = remove_from_free_list bp h1"
  define h3 where "h3 = remove_from_free_list nb h2"
  define fl1 where "fl1 = fl_remove (pb, s1) fl"
  define fl2 where "fl2 = fl_remove (bp, s) fl1"
  define fl3 where "fl3 = fl_remove (nb, s2) fl2"
  note W0 = W [folded bs_def]
  have mb: "(bp, s, 0) \<in> set bs" and mp: "(pb, s1, 0) \<in> set bs" and mn: "(nb, s2, 0) \<in> set bs"
    by (simp_all add: bs_def)
  have e: "pb + s1 = bp" using prev_read(4) [OF W] .
  have W': "winv h ((pre @ [(pb, s1, 0)]) @ (bp, s, 0) # (nb, s2, 0) # post) fl" using W by simp
  have e2: "bp + s = nb" using next_read(4) [OF W'] .
  note gb = winv_geom [OF W0 mb]
  note gp = winv_geom [OF W0 mp]
  note gn = winv_geom [OF W0 mn]
  have ne: "(pb, s1) \<noteq> (bp, s)" "(nb, s2) \<noteq> (bp, s)" "(nb, s2) \<noteq> (pb, s1)"
    using e e2 gp(3) gb(3) by auto
  have p: "PREV_BLKP h bp = pb" "GET_ALLOC h (HDRP pb) = 0"
    using prev_read [OF W] by simp_all
  have n: "NEXT_BLKP h bp = nb" "GET_ALLOC h (HDRP nb) = 0"
    using next_read [OF W'] by simp_all
  have l1: "(pb, s1) \<in> set (fl (class_id s1))" using C by (auto simp: complete_def)
  note r1 = remove_spec [OF W0 l1, folded h1_def fl1_def]
  have l2: "(bp, s) \<in> set (fl1 (class_id s))"
    using C ne by (auto simp: complete_def fl1_def intro!: in_fl_remove_other)
  note r2 = remove_spec [OF r1(1) l2, folded h2_def fl2_def]
  have l3: "(nb, s2) \<in> set (fl2 (class_id s2))"
    using C ne by (auto simp: complete_def fl1_def fl2_def intro!: in_fl_remove_other)
  note r3 = remove_spec [OF r2(1) l3, folded h3_def fl3_def]
  note W3 = r3(1) [unfolded bs_def]
  have W3'': "winv h3 ((pre @ [(pb, s1, 0)]) @ (bp, s, 0) # (nb, s2, 0) # post) fl3" using W3 by simp
  note gb3 = winv_geom [OF r3(1) mb]
  note gp3 = winv_geom [OF r3(1) mp]
  note gn3 = winv_geom [OF r3(1) mn]
  have p3: "PREV_BLKP h3 bp = pb" "GET_SIZE h3 (HDRP pb) = s1"
    using prev_read [OF W3] by simp_all
  have n3: "NEXT_BLKP h3 bp = nb" "GET_SIZE h3 (HDRP nb) = s2"
    using next_read [OF W3''] by simp_all
  from r3(1) have ch: "chain h3 (heap_listp h3 + 8)
      (pre @ [(pb, s1, 0), (bp, s, 0), (nb, s2, 0)] @ post) (mem_brk h3)"
    by (simp add: winv_def bs_def)
  then obtain lo hi where c1: "chain h3 (heap_listp h3 + 8) pre lo"
    and c2: "chain h3 lo [(pb, s1, 0), (bp, s, 0), (nb, s2, 0)] hi"
    and c3: "chain h3 hi post (mem_brk h3)"
    unfolding chain_append by blast
  from c2 have lo: "lo = pb" and hi: "hi = pb + (s1 + s + s2)" by auto
  have W3': "winv h3 (pre @ [(pb, s1, 0), (bp, s, 0), (nb, s2, 0)] @ post) fl3" using W3 by simp
  have nl: "\<forall>c. \<forall>(x, t) \<in> set (fl3 c). (x, t, 0) \<notin> set [(pb, s1, 0), (bp, s, 0), (nb, s2, 0)]"
  proof (intro allI ballI, clarify)
    fix c x t
    assume xt: "(x, t) \<in> set (fl3 c)" and m: "(x, t, 0) \<in> set [(pb, s1, 0), (bp, s, 0), (nb, s2, 0)]"
    from m consider "(x, t) = (pb, s1)" | "(x, t) = (bp, s)" | "(x, t) = (nb, s2)" by auto
    then show False
    proof cases
      case 1
      from xt have "(x, t) \<in> set (fl1 c)"
        unfolding fl3_def fl2_def by (blast dest: in_fl_remove)
      with 1 not_listed_after_remove [OF W0 mp, of c] show False by (force simp: fl1_def)
    next
      case 2
      from xt have "(x, t) \<in> set (fl2 c)"
        unfolding fl3_def by (blast dest: in_fl_remove)
      with 2 not_listed_after_remove [OF r1(1) mb, of c] show False by (force simp: fl2_def)
    next
      case 3
      with xt not_listed_after_remove [OF r2(1) mn, of c] show False by (force simp: fl3_def)
    qed
  qed
  have st: "distinct (map fst bs)"
    using W0 chain_distinct [of h "heap_listp h + 8" bs "mem_brk h"] by (simp add: winv_def)
  have C2: "\<forall>(b, t, a) \<in> set (pre @ post). a = 0 \<longrightarrow> (b, t) \<in> set (fl3 (class_id t))"
  proof (clarify)
    fix b t
    assume m: "(b, t, 0) \<in> set (pre @ post)"
    then have "(b, t, 0) \<in> set bs" by (auto simp: bs_def)
    with C have i: "(b, t) \<in> set (fl (class_id t))" unfolding complete_def bs_def by blast
    from m st have "b \<noteq> bp" "b \<noteq> pb" "b \<noteq> nb" by (auto simp: bs_def rev_image_eqI)
    with i show "(b, t) \<in> set (fl3 (class_id t))"
      by (auto simp: fl3_def fl2_def fl1_def intro!: in_fl_remove_other)
  qed
  have N2: "no_adj (pre @ (lo, hi - lo, 0) # post)"
    using N
    by (cases post) (auto simp: no_adj_append lo hi no_adj_Cons simp del: no_adj.simps)
  from merge_step [OF W3' c1 c2 c3 _ nl C2 N2] obtain h' where
    i: "insert_to_free_list lo (PUT (hi - 8) (PACK (hi - lo) 0) (PUT (lo - 4) (PACK (hi - lo) 0) h3))
        = Some h'"
    and G: "ginv h' (pre @ (lo, hi - lo, 0) # post) (fl_insert (lo, hi - lo) fl3)"
    and k: "keeps (pre @ post) h3 h'" and b: "mem_brk h' = mem_brk h3"
    by auto
  define sz where "sz = s + (s1 + s2)"
  define h4 where "h4 = PUT (HDRP pb) (PACK sz 0) h3"
  define h5 where "h5 = PUT (nb + s2 - 8) (PACK sz 0) h4"
  have sb: "s1 + s2 < 2 ^ 32"
    by (rule winv_size_bound [OF r3(1), of pb]) (use gp3(1) gn3(2) e e2 in simp_all)
  have "GET h4 (bp - 4) = GET h3 (bp - 4)"
    using e gp(3) by (simp add: h4_def HDRP_def GET_PUT_lo)
  then have "GET_SIZE h4 (HDRP bp) = s" using gb3(7,4) by (simp add: HDRP_def GET_SIZE_tag)
  then have n4: "NEXT_BLKP h4 bp = nb" using e2 by (simp add: NEXT_BLKP_def HDRP_def)
  have "GET h4 (nb - 4) = GET h3 (nb - 4)"
    using e e2 gp(3) gb(3) by (simp add: h4_def HDRP_def GET_PUT_lo)
  then have "GET_SIZE h4 (HDRP nb) = s2" using gn3(7,4) by (simp add: HDRP_def GET_SIZE_tag)
  then have f4: "FTRP h4 nb = nb + s2 - 8" by (simp add: FTRP_def)
  have "GET h5 (bp - 8) = GET h3 (bp - 8)"
    using e e2 gp(3) gb(3) gn(3) by (simp add: h5_def h4_def HDRP_def GET_PUT_lo GET_PUT_hi)
  also have "\<dots> = s1 + 0" using gp3(8) e by auto
  finally have "GET_SIZE h5 (bp - 8) = s1" using gp(4) by (rule GET_SIZE_tag) simp
  then have p5: "PREV_BLKP h5 bp = pb" using e by (auto simp: PREV_BLKP_def)
  have md: "(s1 + s2) mod 4294967296 = s1 + s2" using sb by simp
  have co: "coalesce bp h = do { h6 \<leftarrow> insert_to_free_list pb h5; Some (pb, h6) }"
    unfolding coalesce_def
    by (simp add: p n gb(9) Let_def p3 n3 md n4 [unfolded h4_def sz_def]
        f4 [unfolded h4_def sz_def] p5 [unfolded h5_def h4_def sz_def]
        h5_def h4_def sz_def flip: h1_def h2_def h3_def)
  have kk: "keeps (pre @ post) h h'"
    by (rule keeps_trans [OF _ k], rule keeps_trans [of _ _ h2], rule keeps_trans [of _ _ h1])
       (rule keeps_mono [OF r1(2)], simp add: bs_def, rule keeps_mono [OF r2(2)], simp add: bs_def,
        rule keeps_mono [OF r3(2)], simp add: bs_def)
  have hh: "hi - 8 = nb + s2 - 8" "pb - 4 = HDRP pb" "hi - pb = sz"
    using e e2 by (auto simp: hi HDRP_def sz_def)
  from i G b r1(3) r2(3) r3(3) kk show ?thesis
    by (simp add: co lo hh h5_def h4_def fl3_def fl2_def fl1_def flip: sz_def)
qed

lemma winv_bit:
  assumes "winv h bs fl" and "(x, s, a) \<in> set bs"
  shows "a = 0 \<or> a = 1"
  using winv_geom(5) [OF assms] by auto

text \<open>
  The result of \<open>coalesce\<close>, whatever the neighbours are: the heap holds again the
  whole invariant, the allocated blocks are as before, and the block returned is free
  and at least as large as the block passed.
\<close>

lemma coalesce_ginv:
  assumes W: "winv h (pre @ (bp, s, 0) # post) fl"
    and C: "complete (pre @ (bp, s, 0) # post) fl"
    and N: "no_adj (pre @ (bp, s, 1) # post)"
  shows "\<exists>bp' h' bs' fl' t. coalesce bp h = Some (bp', h') \<and> ginv h' bs' fl'
           \<and> keeps (pre @ post) h h' \<and> mem_brk h' = mem_brk h
           \<and> (\<forall>b u. (b, u, 1) \<in> set bs' \<longleftrightarrow> (b, u, 1) \<in> set (pre @ post))
           \<and> (bp', t, 0) \<in> set bs' \<and> s \<le> t"
proof -
  define bs where "bs = pre @ (bp, s, 0) # post"
  have pb: "pre = [] \<or> (\<exists>pre' pb s1 a1. pre = pre' @ [(pb, s1, a1)] \<and> (a1 = 0 \<or> a1 = 1))"
  proof (cases pre rule: rev_cases)
    case Nil
    then show ?thesis by simp
  next
    case (snoc pre' x)
    obtain pb s1 a1 where x: "x = (pb, s1, a1)" by (cases x)
    have "(pb, s1, a1) \<in> set (pre @ (bp, s, 0) # post)" using snoc x by simp
    from winv_bit [OF W this] snoc x show ?thesis by auto
  qed
  have nb: "post = [] \<or> (\<exists>post' nb s2 a2. post = (nb, s2, a2) # post' \<and> (a2 = 0 \<or> a2 = 1))"
  proof (cases post)
    case Nil
    then show ?thesis by simp
  next
    case (Cons x post')
    obtain nb s2 a2 where x: "x = (nb, s2, a2)" by (cases x)
    have "(nb, s2, a2) \<in> set (pre @ (bp, s, 0) # post)" using Cons x by simp
    from winv_bit [OF W this] Cons x show ?thesis by auto
  qed
  consider (c1) "pre = [] \<or> snd (snd (last pre)) = 1" "post = [] \<or> snd (snd (hd post)) = 1"
    | (c2) post' nb s2 where "pre = [] \<or> snd (snd (last pre)) = 1" "post = (nb, s2, 0) # post'"
    | (c3) pre' pb s1 where "pre = pre' @ [(pb, s1, 0)]" "post = [] \<or> snd (snd (hd post)) = 1"
    | (c4) pre' pb s1 post' nb s2 where "pre = pre' @ [(pb, s1, 0)]" "post = (nb, s2, 0) # post'"
    using pb nb by (elim disjE exE conjE) auto
  then show ?thesis
  proof cases
    case c1
    from coalesce_case1 [OF W c1] have co: "coalesce bp h = Some (bp, h)" .
    have "no_adj (pre @ (bp, s, 0) # post)"
      using N c1 by (auto simp: no_adj_append no_adj_Cons simp del: no_adj.simps)
    with W C have "ginv h (pre @ (bp, s, 0) # post) fl" by (simp add: ginv_def)
    with co show ?thesis
      by (intro exI [of _ bp] exI [of _ h] exI [of _ "pre @ (bp, s, 0) # post"] exI [of _ fl]
          exI [of _ s]) (auto simp: keeps_refl)
  next
    case c2
    from coalesce_case2 [OF W [unfolded c2(2)] C [unfolded c2(2)] c2(1) N [unfolded c2(2)]]
    obtain h' where "coalesce bp h = Some (bp, h')"
      "ginv h' (pre @ (bp, s + s2, 0) # post')
          (fl_insert (bp, s + s2) (fl_remove (nb, s2) (fl_remove (bp, s) fl)))"
      "keeps (pre @ post') h h'" "mem_brk h' = mem_brk h" by blast
    then show ?thesis
      by (intro exI [of _ bp] exI [of _ h'] exI [of _ "pre @ (bp, s + s2, 0) # post'"]
          exI [of _ "fl_insert (bp, s + s2) (fl_remove (nb, s2) (fl_remove (bp, s) fl))"]
          exI [of _ "s + s2"])
        (auto simp: c2(2) elim: keeps_mono)
  next
    case c3
    have W3: "winv h (pre' @ (pb, s1, 0) # (bp, s, 0) # post) fl" using W c3(1) by simp
    have C3: "complete (pre' @ (pb, s1, 0) # (bp, s, 0) # post) fl" using C c3(1) by simp
    have N3: "no_adj (pre' @ (pb, s1, 0) # (bp, s, 1) # post)" using N c3(1) by simp
    from coalesce_case3 [OF W3 C3 c3(2) N3]
    obtain h' where "coalesce bp h = Some (pb, h')"
      "ginv h' (pre' @ (pb, s + s1, 0) # post)
          (fl_insert (pb, s + s1) (fl_remove (pb, s1) (fl_remove (bp, s) fl)))"
      "keeps (pre' @ post) h h'" "mem_brk h' = mem_brk h" by blast
    then show ?thesis
      by (intro exI [of _ pb] exI [of _ h'] exI [of _ "pre' @ (pb, s + s1, 0) # post"]
          exI [of _ "fl_insert (pb, s + s1) (fl_remove (pb, s1) (fl_remove (bp, s) fl))"]
          exI [of _ "s + s1"])
        (auto simp: c3(1) elim: keeps_mono)
  next
    case c4
    have W4: "winv h (pre' @ (pb, s1, 0) # (bp, s, 0) # (nb, s2, 0) # post') fl"
      using W c4 by simp
    have C4: "complete (pre' @ (pb, s1, 0) # (bp, s, 0) # (nb, s2, 0) # post') fl"
      using C c4 by simp
    have N4: "no_adj (pre' @ (pb, s1, 0) # (bp, s, 1) # (nb, s2, 0) # post')" using N c4 by simp
    from coalesce_case4 [OF W4 C4 N4]
    obtain h' where "coalesce bp h = Some (pb, h')"
      "ginv h' (pre' @ (pb, s + (s1 + s2), 0) # post')
          (fl_insert (pb, s + (s1 + s2))
             (fl_remove (nb, s2) (fl_remove (bp, s) (fl_remove (pb, s1) fl))))"
      "keeps (pre' @ post') h h'" "mem_brk h' = mem_brk h" by blast
    then show ?thesis
      by (intro exI [of _ pb] exI [of _ h'] exI [of _ "pre' @ (pb, s + (s1 + s2), 0) # post'"]
          exI [of _ "fl_insert (pb, s + (s1 + s2))
             (fl_remove (nb, s2) (fl_remove (bp, s) (fl_remove (pb, s1) fl)))"]
          exI [of _ "s + (s1 + s2)"])
        (auto simp: c4 elim: keeps_mono)
  qed
qed

section \<open>Placement\<close>

lemma size_t_sub_le: "b \<le> a \<Longrightarrow> a < 2 ^ 64 \<Longrightarrow> size_t_sub a b = a - b"
proof -
  assume a: "b \<le> a" "a < 2 ^ 64"
  then have "(int a - int b) mod 2 ^ 64 = int a - int b"
    by (intro mod_pos_pos_trivial) auto
  with a show ?thesis by (simp add: size_t_sub_def)
qed

lemma place_whole:
  assumes G: "ginv h (pre @ (bp, cs, 0) # post) fl"
    and a: "asize \<le> cs" "cs - asize < 16"
  shows "\<exists>h'. place bp asize h = Some (bp, h')
           \<and> ginv h' (pre @ (bp, cs, 1) # post) (fl_remove (bp, cs) fl)
           \<and> keeps (pre @ post) h h' \<and> mem_brk h' = mem_brk h"
proof -
  define bs where "bs = pre @ (bp, cs, 0) # post"
  define h1 where "h1 = remove_from_free_list bp h"
  define fl1 where "fl1 = fl_remove (bp, cs) fl"
  define h2 where "h2 = PUT (HDRP bp) (PACK cs 1) h1"
  define h3 where "h3 = PUT (FTRP h2 bp) (PACK cs 1) h2"
  from G have W: "winv h bs fl" and C: "complete bs fl" and N: "no_adj bs"
    by (simp_all add: ginv_def bs_def)
  have mb: "(bp, cs, 0) \<in> set bs" by (simp add: bs_def)
  note gb = winv_geom [OF W mb]
  have l1: "(bp, cs) \<in> set (fl (class_id cs))" using C mb by (auto simp: complete_def)
  note r1 = remove_spec [OF W l1, folded h1_def fl1_def]
  have W1: "winv h1 (pre @ [(bp, cs, 0)] @ post) fl1" using r1(1) by (simp add: bs_def)
  from W1 obtain lo hi where c1: "chain h1 (heap_listp h1 + 8) pre lo"
    and c2: "chain h1 lo [(bp, cs, 0)] hi" and c3: "chain h1 hi post (mem_brk h1)"
    by (rule winv_chain_mid)
  from c2 have lo: "lo = bp" and hi: "hi = bp + cs" by auto
  have csb: "cs < 2 ^ 32"
    by (rule winv_size_bound [OF W, of bp]) (use gb in simp_all)
  have b4: "4 \<le> bp" using gb(1) by simp
  have l12: "(1 :: nat) < 2" by simp
  note pt = put_tags [OF gb(3,4) csb l12 b4, where h = h1, folded h2_def, folded h3_def]
  have nl: "\<forall>c. \<forall>(x, t) \<in> set (fl1 c). (x, t, 0) \<notin> set [(bp, cs, 0)]"
    using not_listed_after_remove [OF W mb] by (force simp: fl1_def)
  have fr: "\<forall>a. a + 4 < lo \<or> hi \<le> a + 4 \<longrightarrow> mem h3 a = mem h1 a"
    using pt(3) by (simp add: lo hi)
  have new: "chain h3 lo [(bp, cs, 1)] hi" using pt(1) by (simp add: lo hi)
  have lohi: "lo \<le> hi" by (simp add: lo hi)
  note rt = retag [OF W1 c1 c3 lohi nl pt(5,6,7) fr new]
  have cz: "GET_SIZE h (HDRP bp) = cs" by (rule gb(9))
  have ss: "size_t_sub cs asize = cs - asize" using a csb by (intro size_t_sub_le) auto
  have pl: "place bp asize h = Some (bp, h3)"
    unfolding place_def using a by (simp add: cz ss Let_def h3_def h2_def h1_def)
  have st: "distinct (map fst bs)"
    using W chain_distinct [of h "heap_listp h + 8" bs "mem_brk h"] by (simp add: winv_def)
  have "complete (pre @ (bp, cs, 1) # post) fl1"
    unfolding complete_def
  proof (clarify)
    fix b t
    assume "(b, t, 0) \<in> set (pre @ (bp, cs, 1) # post)"
    then have m: "(b, t, 0) \<in> set (pre @ post)" by auto
    then have "(b, t, 0) \<in> set bs" by (auto simp: bs_def)
    with C have i: "(b, t) \<in> set (fl (class_id t))" unfolding complete_def by blast
    from m st have "b \<noteq> bp" by (auto simp: bs_def rev_image_eqI)
    with i show "(b, t) \<in> set (fl1 (class_id t))"
      by (auto simp: fl1_def intro!: in_fl_remove_other)
  qed
  moreover have "no_adj (pre @ (bp, cs, 1) # post)"
    using N by (auto simp: bs_def no_adj_append no_adj_Cons simp del: no_adj.simps)
  ultimately have "ginv h3 (pre @ (bp, cs, 1) # post) fl1"
    using rt(1) by (simp add: ginv_def)
  moreover have "keeps (pre @ post) h h3"
    by (rule keeps_trans [OF _ rt(2)]) (rule keeps_mono [OF r1(2)], simp add: bs_def)
  ultimately show ?thesis using pl pt(6) r1(3) by (auto simp: fl1_def)
qed

lemma place_split:
  assumes G: "ginv h (pre @ (bp, cs, 0) # post) fl"
    and a: "16 \<le> asize" "8 dvd asize" "asize + 16 \<le> cs"
  shows "\<exists>h'. place bp asize h = Some (bp, h')
           \<and> ginv h' (pre @ (bp, asize, 1) # (bp + asize, cs - asize, 0) # post)
                (fl_insert (bp + asize, cs - asize) (fl_remove (bp, cs) fl))
           \<and> keeps (pre @ post) h h' \<and> mem_brk h' = mem_brk h"
proof -
  define bs where "bs = pre @ (bp, cs, 0) # post"
  define h1 where "h1 = remove_from_free_list bp h"
  define fl1 where "fl1 = fl_remove (bp, cs) fl"
  define h2 where "h2 = PUT (HDRP bp) (PACK asize 1) h1"
  define h3 where "h3 = PUT (FTRP h2 bp) (PACK asize 1) h2"
  define fb where "fb = bp + asize"
  define rs where "rs = cs - asize"
  define h4 where "h4 = PUT (HDRP fb) (PACK rs 0) h3"
  define h5 where "h5 = PUT (FTRP h4 fb) (PACK rs 0) h4"
  from G have W: "winv h bs fl" and C: "complete bs fl" and N: "no_adj bs"
    by (simp_all add: ginv_def bs_def)
  have mb: "(bp, cs, 0) \<in> set bs" by (simp add: bs_def)
  note gb = winv_geom [OF W mb]
  have l1: "(bp, cs) \<in> set (fl (class_id cs))" using C mb by (auto simp: complete_def)
  note r1 = remove_spec [OF W l1, folded h1_def fl1_def]
  have W1: "winv h1 (pre @ [(bp, cs, 0)] @ post) fl1" using r1(1) by (simp add: bs_def)
  from W1 obtain lo hi where c1: "chain h1 (heap_listp h1 + 8) pre lo"
    and c2: "chain h1 lo [(bp, cs, 0)] hi" and c3: "chain h1 hi post (mem_brk h1)"
    by (rule winv_chain_mid)
  from c2 have lo: "lo = bp" and hi: "hi = bp + cs" by auto
  have csb: "cs < 2 ^ 32"
    by (rule winv_size_bound [OF W, of bp]) (use gb in simp_all)
  have ab: "asize < 2 ^ 32" using a csb by simp
  have b4: "4 \<le> bp" "4 \<le> fb" using gb(1) by (simp_all add: fb_def)
  have rs: "16 \<le> rs" "8 dvd rs" "rs < 2 ^ 32" "asize + rs = cs"
    using a gb(4) csb by (simp_all add: rs_def)
  have l12: "(1 :: nat) < 2" "(0 :: nat) < 2" by simp_all
  note pt1 = put_tags [OF a(1,2) ab l12(1) b4(1), where h = h1, folded h2_def, folded h3_def]
  note pt2 = put_tags [OF rs(1,2,3) l12(2) b4(2), where h = h3, folded h4_def, folded h5_def]
  have "chain h5 bp [(bp, asize, 1)] (bp + asize)"
    by (rule chain_frame [OF pt1(1) b4(1)]) (use pt2(3) in \<open>simp add: fb_def\<close>)
  with pt2(1) have new: "chain h5 lo [(bp, asize, 1), (fb, rs, 0)] hi"
    using rs(4) by (simp add: lo hi fb_def add.assoc)
  have nl: "\<forall>c. \<forall>(x, t) \<in> set (fl1 c). (x, t, 0) \<notin> set [(bp, cs, 0)]"
    using not_listed_after_remove [OF W mb] by (force simp: fl1_def)
  have fr: "\<forall>a. a + 4 < lo \<or> hi \<le> a + 4 \<longrightarrow> mem h5 a = mem h1 a"
    using pt1(3) pt2(3) rs(4) a by (auto simp: lo hi fb_def)
  have lohi: "lo \<le> hi" by (simp add: lo hi)
  have f5: "heap_listp h5 = heap_listp h1" "mem_brk h5 = mem_brk h1"
    "mem_max_addr h5 = mem_max_addr h1"
    using pt1(5,6,7) pt2(5,6,7) by simp_all
  note rt = retag [OF W1 c1 c3 lohi nl f5 fr new]
  have W5: "winv h5 ((pre @ [(bp, asize, 1)]) @ (fb, rs, 0) # post) fl1" using rt(1) by simp
  have st: "distinct (map fst bs)"
    using W chain_distinct [of h "heap_listp h + 8" bs "mem_brk h"] by (simp add: winv_def)
  have listed: "(x, t, 0) \<in> set (pre @ post)" if "(x, t) \<in> set (fl1 c)" for x t c
  proof -
    from winv_listed(1) [OF r1(1) that] have "(x, t, 0) \<in> set bs" .
    moreover have "(x, t) \<noteq> (bp, cs)"
      using that not_listed_after_remove [OF W mb, of c] by (force simp: fl1_def)
    ultimately show ?thesis by (auto simp: bs_def)
  qed
  have nfb: "fb \<notin> fst ` set (fl1 c)" for c
  proof
    assume "fb \<in> fst ` set (fl1 c)"
    then obtain t where t: "(fb, t) \<in> set (fl1 c)" by force
    from listed [OF t] have m: "(fb, t, 0) \<in> set bs" by (auto simp: bs_def)
    from winv_disj [OF W m mb] winv_geom(3) [OF W m] a show False by (auto simp: fb_def)
  qed
  have mf: "(fb, rs, 0) \<in> set ((pre @ [(bp, asize, 1)]) @ (fb, rs, 0) # post)" by simp
  from insert_spec [OF W5 mf nfb] obtain h6 where
    i: "insert_to_free_list fb h5 = Some h6"
    and W6: "winv h6 ((pre @ [(bp, asize, 1)]) @ (fb, rs, 0) # post) (fl_insert (fb, rs) fl1)"
    and k6: "keeps ((pre @ [(bp, asize, 1)]) @ (fb, rs, 0) # post) h5 h6"
    and b6: "mem_brk h6 = mem_brk h5"
    by blast
  have cz: "GET_SIZE h (HDRP bp) = cs" by (rule gb(9))
  have ss: "size_t_sub cs asize = rs" using a csb by (simp add: rs_def size_t_sub_le)
  have "GET h3 (bp - 4) = asize + 1"
    using pt1(1) by simp
  then have "GET_SIZE h3 (bp - 4) = asize" using a by (simp add: GET_SIZE_tag)
  then have nx: "NEXT_BLKP h3 bp = fb" by (simp add: NEXT_BLKP_def fb_def)
  have pl: "place bp asize h = Some (bp, h6)"
    unfolding place_def Let_def cz ss
    using rs(1) i
    apply (simp only: h1_def [symmetric] h2_def [symmetric] h3_def [symmetric] nx
        h4_def [symmetric] h5_def [symmetric])
    apply simp
    done
  have "complete (pre @ (bp, asize, 1) # (fb, rs, 0) # post) (fl_insert (fb, rs) fl1)"
    unfolding complete_def
  proof (clarify)
    fix b t
    assume "(b, t, 0) \<in> set (pre @ (bp, asize, 1) # (fb, rs, 0) # post)"
    then have "(b, t) = (fb, rs) \<or> (b, t, 0) \<in> set (pre @ post)" by auto
    then show "(b, t) \<in> set (fl_insert (fb, rs) fl1 (class_id t))"
    proof
      assume "(b, t) = (fb, rs)"
      then show ?thesis by (simp add: in_fl_insert)
    next
      assume m: "(b, t, 0) \<in> set (pre @ post)"
      then have "(b, t, 0) \<in> set bs" by (auto simp: bs_def)
      with C have i: "(b, t) \<in> set (fl (class_id t))" unfolding complete_def by blast
      from m st have "b \<noteq> bp" by (auto simp: bs_def rev_image_eqI)
      with i have "(b, t) \<in> set (fl1 (class_id t))"
        by (auto simp: fl1_def intro!: in_fl_remove_other)
      then show ?thesis by (simp add: in_fl_insert)
    qed
  qed
  moreover have "no_adj (pre @ (bp, asize, 1) # (fb, rs, 0) # post)"
    using N
    by (cases post) (auto simp: bs_def no_adj_append no_adj_Cons simp del: no_adj.simps)
  ultimately have "ginv h6 (pre @ (bp, asize, 1) # (fb, rs, 0) # post) (fl_insert (fb, rs) fl1)"
    using W6 by (simp add: ginv_def)
  moreover have "keeps (pre @ post) h h6"
    by (rule keeps_trans [of _ _ h5], rule keeps_trans [OF _ rt(2)])
       (rule keeps_mono [OF r1(2)], simp add: bs_def, rule keeps_mono [OF k6], auto)
  ultimately show ?thesis using pl b6 f5(2) r1(3) by (auto simp: fl1_def fb_def rs_def)
qed

section \<open>Heap extension\<close>

lemma extend_frame:
  assumes W: "winv h bs fl"
    and f: "heap_listp h' = heap_listp h" "mem_max_addr h' = mem_max_addr h"
      "mem_brk h' = mem_brk h + n" "mem_brk h + n \<le> mem_max_addr h"
      "mem_brk h + n < heap_listp h + 2 ^ 32"
    and fr: "\<forall>a. a + 4 < mem_brk h \<longrightarrow> mem h' a = mem h a"
    and new: "chain h' (mem_brk h) mid (mem_brk h + n)"
    and ep: "GET h' (mem_brk h + n - 4) = 1"
  shows "winv h' (bs @ mid) fl" and "keeps bs h h'"
proof -
  from W have r: "region h" and l: "lists h bs fl"
    and c: "chain h (heap_listp h + 8) bs (mem_brk h)" by (simp_all add: winv_def)
  have fr': "mem h' a = mem h a" if "a + 4 < mem_brk h" for a using fr that by blast
  have "GET h' (heap_listp h - 4) = GET h (heap_listp h - 4)"
    by (rule GET_frame) (use r in \<open>auto intro!: fr' simp: region_def\<close>)
  moreover have "GET h' (heap_listp h) = GET h (heap_listp h)"
    by (rule GET_frame) (use r in \<open>auto intro!: fr' simp: region_def\<close>)
  ultimately have r': "region h'" using r f ep by (simp add: region_def)
  have c': "chain h' (heap_listp h + 8) bs (mem_brk h)"
    by (rule chain_frame [OF c]) (auto intro!: fr')
  have ch: "chain h' (heap_listp h' + 8) (bs @ mid) (mem_brk h')"
    using c' new f by (auto simp: chain_append)
  have cell: "mem h' a = mem h a" if "(x, t) \<in> set (fl c)" "x \<le> a" "a < x + 8" for x t c a
  proof -
    from lists_mem [OF l that(1)] have "(x, t, 0) \<in> set bs" by simp
    from winv_geom(2,3) [OF W this] that show ?thesis by (intro fr') simp
  qed
  have "lists h' (bs @ mid) fl"
    unfolding lists_def
  proof (intro allI conjI impI)
    fix c
    show "seg h' NULL (GET_HEAD h' (list_head h' c)) (map fst (fl c)) NULL" if c: "c < CLASS_CNT"
    proof -
      have H: "list_head h c + 64 = heap_listp h + 4 * c" using list_head_eq [OF r] c by simp
      have lh: "list_head h' c = list_head h c" using f by (simp add: list_head_def)
      have "GET h' (list_head h c) = GET h (list_head h c)"
        by (rule GET_frame) (use H c r in \<open>auto intro!: fr' simp: region_def\<close>)
      then have hd: "GET_HEAD h' (list_head h' c) = GET_HEAD h (list_head h c)"
        using f lh by (simp add: GET_HEAD_def REL2ABS_def)
      have "seg h' NULL (GET_HEAD h (list_head h c)) (map fst (fl c)) NULL
        = seg h NULL (GET_HEAD h (list_head h c)) (map fst (fl c)) NULL"
      proof (rule seg_cong [OF f(1)], rule ballI)
        fix y assume "y \<in> set (map fst (fl c))"
        then obtain t where y: "(y, t) \<in> set (fl c)" by auto
        have "GET h' y = GET h y" by (rule GET_frame) (auto intro!: cell [OF y])
        moreover have "GET h' (y + 4) = GET h (y + 4)"
          by (rule GET_frame) (auto intro!: cell [OF y])
        ultimately show "GET h' y = GET h y \<and> GET h' (y + 4) = GET h (y + 4)" ..
      qed
      with hd l c show ?thesis by (simp add: lists_def)
    qed
    show "distinct (map fst (fl c))" using l by (simp add: lists_def)
    show "sorted (map snd (fl c))" using l by (simp add: lists_def)
    show "\<forall>(x, t)\<in>set (fl c). (x, t, 0) \<in> set (bs @ mid) \<and> class_id t = c"
      using lists_mem [OF l] by fastforce
  qed
  with r' ch show "winv h' (bs @ mid) fl" by (simp add: winv_def)
  show "keeps bs h h'"
    unfolding keeps_def
  proof (intro conjI ballI, goal_cases)
    case 1 show ?case by (rule f)
  next
    case 2 show ?case by (rule f)
  next
    case (3 e)
    obtain b s al where e: "e = (b, s, al)" by (cases e)
    have "mem h' a = mem h a" if a: "b \<le> a" "a + 8 < b + s" for a
    proof -
      from 3 e have "(b, s, al) \<in> set bs" by simp
      from winv_geom(2) [OF W this] a show ?thesis by (intro fr') simp
    qed
    then show ?case using e by auto
  qed
qed

lemma extend_heap_fail:
  assumes "mem_max_addr h < mem_brk h
      + (if words mod 2 \<noteq> 0 then (words + 1) * WSIZE else words * WSIZE) mod SIZE_T"
  shows "extend_heap words h = Some (NULL, h)"
  using assms by (simp add: extend_heap_def mem_sbrk_def Let_def)

lemma extend_heap_write:
  fixes h :: heap
  assumes W: "winv h bs fl"
    and s: "16 \<le> sz" "8 dvd sz" and ok: "mem_brk h + sz \<le> mem_max_addr h"
      "mem_brk h + sz < heap_listp h + 2 ^ 32"
  defines "bp \<equiv> mem_brk h"
  defines "h0 \<equiv> h\<lparr>mem_brk := mem_brk h + sz\<rparr>"
  defines "h1 \<equiv> PUT (HDRP bp) (PACK sz 0) h0"
  defines "h2 \<equiv> PUT (FTRP h1 bp) (PACK sz 0) h1"
  defines "h3 \<equiv> SET_PRED bp NULL h2"
  defines "h4 \<equiv> SET_SUCC bp NULL h3"
  defines "h5 \<equiv> PUT (HDRP (NEXT_BLKP h4 bp)) (PACK 0 1) h4"
  shows "winv h5 (bs @ [(bp, sz, 0)]) fl" and "keeps bs h h5" and "mem_brk h5 = mem_brk h + sz"
    and "mem_sbrk sz h = (Some bp, h0)"
proof -
  from W have r: "region h" by (simp add: winv_def)
  have szb: "sz < 2 ^ 32" using r ok by (simp add: region_def)
  have b4: "4 \<le> bp" using r by (simp add: bp_def region_def)
  have z2: "(0 :: nat) < 2" by simp
  note pt = put_tags [OF s szb z2 b4, where h = h0, folded h1_def, folded h2_def]
  have f2: "heap_listp h2 = heap_listp h" "mem_max_addr h2 = mem_max_addr h"
    "mem_brk h2 = mem_brk h + sz"
    using pt(5,6,7) by (simp_all add: h0_def)
  have m3: "mem h4 a = mem h2 a" if "a < bp \<or> bp + 8 \<le> a" for a
    using that by (auto simp: h4_def h3_def mem_SET_other)
  have g4: "GET h4 (bp - 4) = GET h2 (bp - 4)"
    by (rule GET_frame) (use b4 in \<open>auto intro!: m3\<close>)
  have "GET h2 (bp - 4) = sz + 0" using pt(1) by simp
  with g4 have "GET_SIZE h4 (bp - 4) = sz" using s by (simp add: GET_SIZE_tag)
  then have nx: "HDRP (NEXT_BLKP h4 bp) = bp + sz - 4" by (simp add: NEXT_BLKP_def HDRP_def)
  have h5: "h5 = PUT (bp + sz - 4) 1 h4" by (simp add: h5_def nx PACK_def)
  have f5: "heap_listp h5 = heap_listp h" "mem_max_addr h5 = mem_max_addr h"
    "mem_brk h5 = mem_brk h + sz"
    using f2 by (simp_all add: h5 h4_def h3_def)
  have m5: "mem h5 a = mem h2 a" if "a < bp \<or> (bp + 8 \<le> a \<and> a + 4 < bp + sz)" for a
    using that s by (auto simp: h5 mem_PUT_lo mem_PUT_hi m3)
  have fr: "\<forall>a. a + 4 < mem_brk h \<longrightarrow> mem h5 a = mem h a"
  proof (intro allI impI)
    fix a assume a: "a + 4 < mem_brk h"
    then have "mem h5 a = mem h2 a" by (intro m5) (simp add: bp_def)
    also have "\<dots> = mem h0 a" using pt(3) a by (simp add: bp_def)
    finally show "mem h5 a = mem h a" by (simp add: h0_def)
  qed
  have "chain h5 bp [(bp, sz, 0)] (bp + sz)"
  proof -
    have "GET h5 (bp - 4) = GET h2 (bp - 4)"
      by (rule GET_frame) (use b4 in \<open>auto intro!: m5\<close>)
    moreover have "GET h5 (bp + sz - 8) = GET h2 (bp + sz - 8)"
      by (rule GET_frame) (use s in \<open>auto intro!: m5\<close>)
    ultimately show ?thesis using pt(1) by simp
  qed
  then have new: "chain h5 (mem_brk h) [(bp, sz, 0)] (mem_brk h + sz)" by (simp add: bp_def)
  have ep: "GET h5 (mem_brk h + sz - 4) = 1" by (simp add: h5 bp_def GET_PUT_val)
  from extend_frame [OF W f5(1,2,3) ok fr new ep]
  show "winv h5 (bs @ [(bp, sz, 0)]) fl" and "keeps bs h h5" .
  show "mem_brk h5 = mem_brk h + sz" by (rule f5)
  show "mem_sbrk sz h = (Some bp, h0)" using ok by (simp add: mem_sbrk_def bp_def h0_def)
qed

lemma extend_heap_steps:
  assumes G: "ginv h bs fl"
    and sz: "sz = (if words mod 2 \<noteq> 0 then (words + 1) * WSIZE else words * WSIZE) mod SIZE_T"
    and s: "16 \<le> sz" "8 dvd sz" and ok: "mem_brk h + sz \<le> mem_max_addr h"
      "mem_brk h + sz < heap_listp h + 2 ^ 32"
  shows "\<exists>h6. extend_heap words h = coalesce (mem_brk h) h6
           \<and> winv h6 (bs @ [(mem_brk h, sz, 0)]) (fl_insert (mem_brk h, sz) fl)
           \<and> complete (bs @ [(mem_brk h, sz, 0)]) (fl_insert (mem_brk h, sz) fl)
           \<and> no_adj (bs @ [(mem_brk h, sz, 1)])
           \<and> keeps bs h h6 \<and> mem_brk h6 = mem_brk h + sz"
proof -
  define bp where "bp = mem_brk h"
  from G have W: "winv h bs fl" and C: "complete bs fl" and N: "no_adj bs"
    by (simp_all add: ginv_def)
  define h0 where "h0 = h\<lparr>mem_brk := bp + sz\<rparr>"
  define h1 where "h1 = PUT (HDRP bp) (PACK sz 0) h0"
  define h2 where "h2 = PUT (FTRP h1 bp) (PACK sz 0) h1"
  define h3 where "h3 = SET_PRED bp NULL h2"
  define h4 where "h4 = SET_SUCC bp NULL h3"
  define h5 where "h5 = PUT (HDRP (NEXT_BLKP h4 bp)) (PACK 0 1) h4"
  note ew = extend_heap_write [OF W s ok, folded bp_def, folded h0_def, folded h1_def,
      folded h2_def, folded h3_def, folded h4_def, folded h5_def]
  have nb: "bp \<notin> fst ` set (fl c)" for c
  proof
    assume "bp \<in> fst ` set (fl c)"
    then obtain t where "(bp, t) \<in> set (fl c)" by force
    from winv_listed(1) [OF W this] have "(bp, t, 0) \<in> set bs" .
    from winv_geom(2,3) [OF W this] show False by (simp add: bp_def)
  qed
  have m: "(bp, sz, 0) \<in> set (bs @ [(bp, sz, 0)])" by simp
  from insert_spec [OF ew(1) m nb] obtain h6 where
    i: "insert_to_free_list bp h5 = Some h6"
    and W6: "winv h6 (bs @ [(bp, sz, 0)]) (fl_insert (bp, sz) fl)"
    and k6: "keeps (bs @ [(bp, sz, 0)]) h5 h6"
    and b6: "mem_brk h6 = bp + sz"
    using ew(3) by auto
  have ex: "extend_heap words h = coalesce bp h6"
    unfolding extend_heap_def Let_def sz [symmetric] ew(4)
    using i
    apply (simp only: prod.case option.case h1_def [symmetric] h2_def [symmetric]
        h3_def [symmetric] h4_def [symmetric] h5_def [symmetric])
    apply simp
    done
  have C6: "complete (bs @ [(bp, sz, 0)]) (fl_insert (bp, sz) fl)"
    unfolding complete_def
  proof (clarify)
    fix b t
    assume "(b, t, 0) \<in> set (bs @ [(bp, sz, 0)])"
    then have "(b, t) = (bp, sz) \<or> (b, t, 0) \<in> set bs" by auto
    then show "(b, t) \<in> set (fl_insert (bp, sz) fl (class_id t))"
    proof
      assume "(b, t) = (bp, sz)"
      then show ?thesis by (simp add: in_fl_insert)
    next
      assume "(b, t, 0) \<in> set bs"
      with C have "(b, t) \<in> set (fl (class_id t))" unfolding complete_def by blast
      then show ?thesis by (simp add: in_fl_insert)
    qed
  qed
  have N6: "no_adj (bs @ [(bp, sz, 1)])"
    using N by (auto simp: no_adj_append)
  have "keeps bs h h6"
    by (rule keeps_trans [OF ew(2)]) (rule keeps_mono [OF k6], simp)
  with ex W6 C6 N6 b6 show ?thesis unfolding bp_def by blast
qed

lemma extend_heap_ok:
  assumes G: "ginv h bs fl"
    and sz: "sz = (if words mod 2 \<noteq> 0 then (words + 1) * WSIZE else words * WSIZE) mod SIZE_T"
    and s: "16 \<le> sz" "8 dvd sz" and ok: "mem_brk h + sz \<le> mem_max_addr h"
      "mem_brk h + sz < heap_listp h + 2 ^ 32"
  shows "\<exists>bp' h' bs' fl' t. extend_heap words h = Some (bp', h') \<and> ginv h' bs' fl'
           \<and> keeps bs h h' \<and> mem_brk h' = mem_brk h + sz
           \<and> (\<forall>b u. (b, u, 1) \<in> set bs' \<longleftrightarrow> (b, u, 1) \<in> set bs)
           \<and> (bp', t, 0) \<in> set bs' \<and> sz \<le> t"
proof -
  from extend_heap_steps [OF G sz s ok] obtain h6 where
    ex: "extend_heap words h = coalesce (mem_brk h) h6"
    and W6: "winv h6 (bs @ (mem_brk h, sz, 0) # []) (fl_insert (mem_brk h, sz) fl)"
    and C6: "complete (bs @ (mem_brk h, sz, 0) # []) (fl_insert (mem_brk h, sz) fl)"
    and N6: "no_adj (bs @ (mem_brk h, sz, 1) # [])"
    and k6: "keeps bs h h6" and b6: "mem_brk h6 = mem_brk h + sz"
    by auto
  from coalesce_ginv [OF W6 C6 N6] obtain bp' h' bs' fl' t where
    "coalesce (mem_brk h) h6 = Some (bp', h')" "ginv h' bs' fl'" "keeps (bs @ []) h6 h'"
    "mem_brk h' = mem_brk h6" "\<forall>b u. (b, u, 1) \<in> set bs' \<longleftrightarrow> (b, u, 1) \<in> set (bs @ [])"
    "(bp', t, 0) \<in> set bs'" "sz \<le> t"
    by blast
  with ex k6 b6 show ?thesis
    by (intro exI [of _ bp'] exI [of _ h'] exI [of _ bs'] exI [of _ fl'] exI [of _ t])
      (auto intro: keeps_trans)
qed

lemma extend_heap_exact:
  assumes G: "ginv h bs fl"
    and sz: "sz = (if words mod 2 \<noteq> 0 then (words + 1) * WSIZE else words * WSIZE) mod SIZE_T"
    and s: "16 \<le> sz" "8 dvd sz" and ok: "mem_brk h + sz \<le> mem_max_addr h"
      "mem_brk h + sz < heap_listp h + 2 ^ 32"
    and la: "bs = [] \<or> snd (snd (last bs)) = 1"
  shows "\<exists>h'. extend_heap words h = Some (mem_brk h, h')
           \<and> ginv h' (bs @ [(mem_brk h, sz, 0)]) (fl_insert (mem_brk h, sz) fl)
           \<and> keeps bs h h' \<and> mem_brk h' = mem_brk h + sz"
proof -
  from extend_heap_steps [OF G sz s ok] obtain h6 where
    ex: "extend_heap words h = coalesce (mem_brk h) h6"
    and W6: "winv h6 (bs @ (mem_brk h, sz, 0) # []) (fl_insert (mem_brk h, sz) fl)"
    and C6: "complete (bs @ (mem_brk h, sz, 0) # []) (fl_insert (mem_brk h, sz) fl)"
    and N6: "no_adj (bs @ (mem_brk h, sz, 1) # [])"
    and k6: "keeps bs h h6" and b6: "mem_brk h6 = mem_brk h + sz"
    by auto
  have co: "coalesce (mem_brk h) h6 = Some (mem_brk h, h6)"
    by (rule coalesce_case1 [OF W6 la]) simp
  have "no_adj (bs @ [(mem_brk h, sz, 0)])"
    using N6 la by (auto simp: no_adj_append)
  with W6 C6 have "ginv h6 (bs @ [(mem_brk h, sz, 0)]) (fl_insert (mem_brk h, sz) fl)"
    by (simp add: ginv_def)
  with ex co k6 b6 show ?thesis by auto
qed

section \<open>The search for a fit\<close>

lemma fits_step:
  "c < CLASS_CNT \<Longrightarrow> fits fl asize c = filter (\<lambda>y. asize \<le> snd y) (fl c) @ fits fl asize (Suc c)"
  by (simp add: fits_def upt_conv_Cons)

lemma fits_end: "fits fl asize CLASS_CNT = []"
  by (simp add: fits_def)

lemma find_fit_heads_spec:
  assumes W: "winv h bs fl"
  shows "c \<le> CLASS_CNT \<Longrightarrow> find_fit_heads h asize (list_head h c) = Some (first_fit fl asize c)"
proof (induction "CLASS_CNT - c" arbitrary: c)
  case 0
  then have c: "c = CLASS_CNT" by simp
  have "list_head h c = heap_listp h - 2 * WSIZE" by (simp add: c list_head_def)
  then show ?case
    by (subst find_fit_heads.simps) (simp add: first_fit_def fits_end c)
next
  case (Suc n)
  then have c: "c < CLASS_CNT" by simp
  from W have r: "region h" and l: "lists h bs fl" by (simp_all add: winv_def)
  have H: "list_head h c + 64 = heap_listp h + 4 * c" using list_head_eq [OF r, of c] c by simp
  have H1: "list_head h (Suc c) + 64 = heap_listp h + 4 * Suc c"
    using list_head_eq [OF r, of "Suc c"] c by simp
  have ne: "list_head h c \<noteq> heap_listp h - 8" using H c r by (simp add: region_def)
  have nx: "list_head h c + WSIZE = list_head h (Suc c)" using H H1 by simp
  have sg: "seg h NULL (GET_HEAD h (list_head h c)) (map fst (fl c)) NULL"
    using l c by (simp add: lists_def)
  have szs: "\<forall>(x, t) \<in> set (fl c). GET_SIZE h (HDRP x) = t"
    using winv_listed(1) [OF W, of _ _ c] winv_geom(9) [OF W] by blast
  define F where "F = filter (\<lambda>y. asize \<le> snd y) (fl c)"
  have ffl: "find_fit_list h asize (GET_HEAD h (list_head h c)) = Some (hd (map fst F @ [NULL]))"
    using find_fit_list_seg [OF sg szs] by (simp add: F_def)
  have nz: "fst y \<noteq> NULL" if "y \<in> set F" for y
  proof -
    from that have "(fst y, snd y) \<in> set (fl c)" by (simp add: F_def)
    from winv_geom(1) [OF W winv_listed(1) [OF W this]] show ?thesis by simp
  qed
  have IH: "find_fit_heads h asize (list_head h (Suc c)) = Some (first_fit fl asize (Suc c))"
    using Suc by (intro Suc.hyps) auto
  show ?case
  proof (cases F)
    case Nil
    then have "find_fit_heads h asize (list_head h c) = find_fit_heads h asize (list_head h (Suc c))"
      by (subst find_fit_heads.simps) (simp add: ne ffl nx)
    with IH Nil show ?thesis
      by (simp add: first_fit_def fits_step [OF c] flip: F_def)
  next
    case (Cons y ys)
    with nz [of y] have "fst y \<noteq> NULL" by simp
    with Cons have "find_fit_heads h asize (list_head h c) = Some (fst y)"
      by (subst find_fit_heads.simps) (simp add: ne ffl)
    with Cons show ?thesis
      by (simp add: first_fit_def fits_step [OF c] flip: F_def)
  qed
qed

lemma find_fit_spec:
  assumes W: "winv h bs fl"
  shows "find_fit asize h = Some (first_fit fl asize (class_id asize))"
  unfolding find_fit_def get_listp_eq
  using find_fit_heads_spec [OF W, of "class_id asize" asize] class_id_lt [of asize] by simp

lemma first_fit_found:
  assumes "first_fit fl asize c \<noteq> NULL"
  shows "\<exists>t c'. (first_fit fl asize c, t) \<in> set (fl c') \<and> asize \<le> t"
proof (cases "fits fl asize c")
  case Nil
  with assms show ?thesis by (simp add: first_fit_def)
next
  case (Cons y ys)
  then have "y \<in> set (fits fl asize c)" by simp
  then have "\<exists>c'. y \<in> set (fl c') \<and> asize \<le> snd y" by (auto simp: fits_def)
  then obtain c' where "(fst y, snd y) \<in> set (fl c')" "asize \<le> snd y" by auto
  then have "\<exists>t c'. (fst y, t) \<in> set (fl c') \<and> asize \<le> t" by blast
  with Cons show ?thesis by (simp add: first_fit_def)
qed

section \<open>Freeing a block\<close>

lemma free_insert:
  assumes G: "ginv h (pre @ (bp, s, 1) # post) fl"
  shows "\<exists>h5. free bp h = Option.bind (coalesce bp h5) (\<lambda>(r, h6). Some h6)
           \<and> winv h5 (pre @ (bp, s, 0) # post) (fl_insert (bp, s) fl)
           \<and> complete (pre @ (bp, s, 0) # post) (fl_insert (bp, s) fl)
           \<and> keeps (pre @ post) h h5 \<and> mem_brk h5 = mem_brk h"
proof -
  define bs where "bs = pre @ (bp, s, 1) # post"
  define bs' where "bs' = pre @ (bp, s, 0) # post"
  define h1 where "h1 = PUT (HDRP bp) (PACK s 0) h"
  define h2 where "h2 = PUT (FTRP h1 bp) (PACK s 0) h1"
  define h3 where "h3 = SET_PRED bp NULL h2"
  define h4 where "h4 = SET_SUCC bp NULL h3"
  from G have W: "winv h bs fl" and C: "complete bs fl" and N: "no_adj bs"
    by (simp_all add: ginv_def bs_def)
  have mb: "(bp, s, 1) \<in> set bs" by (simp add: bs_def)
  note gb = winv_geom [OF W mb]
  have W0: "winv h (pre @ [(bp, s, 1)] @ post) fl" using W by (simp add: bs_def)
  from W0 obtain lo hi where c1: "chain h (heap_listp h + 8) pre lo"
    and c2: "chain h lo [(bp, s, 1)] hi" and c3: "chain h hi post (mem_brk h)"
    by (rule winv_chain_mid)
  from c2 have lo: "lo = bp" and hi: "hi = bp + s" by auto
  have sb: "s < 2 ^ 32"
    by (rule winv_size_bound [OF W, of bp]) (use gb in simp_all)
  have b4: "4 \<le> bp" using gb(1) by simp
  have l02: "(0 :: nat) < 2" by simp
  note pt = put_tags [OF gb(3,4) sb l02 b4, where h = h, folded h1_def, folded h2_def]
  have f4: "heap_listp h4 = heap_listp h" "mem_brk h4 = mem_brk h"
    "mem_max_addr h4 = mem_max_addr h"
    using pt(5,6,7) by (simp_all add: h4_def h3_def)
  have m4: "mem h4 a = mem h2 a" if "a < bp \<or> bp + 8 \<le> a" for a
    using that by (auto simp: h4_def h3_def mem_SET_other)
  have nl: "\<forall>c. \<forall>(x, t) \<in> set (fl c). (x, t, 0 :: nat) \<notin> set [(bp, s, 1)]" by auto
  have fr: "\<forall>a. a + 4 < lo \<or> hi \<le> a + 4 \<longrightarrow> mem h4 a = mem h a"
    using pt(3) gb(3) by (auto simp: lo hi m4)
  have "GET h4 (bp - 4) = GET h2 (bp - 4)"
    by (rule GET_frame) (use b4 in \<open>auto intro!: m4\<close>)
  moreover have "GET h4 (bp + s - 8) = GET h2 (bp + s - 8)"
    by (rule GET_frame) (use gb(3) in \<open>auto intro!: m4\<close>)
  ultimately have new: "chain h4 lo [(bp, s, 0)] hi" using pt(1) by (simp add: lo hi)
  have lohi: "lo \<le> hi" by (simp add: lo hi)
  note rt = retag [OF W0 c1 c3 lohi nl f4 fr new]
  have W4: "winv h4 bs' fl" using rt(1) by (simp add: bs'_def)
  have st: "distinct (map fst bs)"
    using W chain_distinct [of h "heap_listp h + 8" bs "mem_brk h"] by (simp add: winv_def)
  have nin: "bp \<notin> fst ` set (fl c)" for c
  proof
    assume "bp \<in> fst ` set (fl c)"
    then obtain t where "(bp, t) \<in> set (fl c)" by auto
    from winv_listed(1) [OF W this] have "(bp, t, 0) \<in> set bs" .
    from winv_same_start [OF W this mb] show False by simp
  qed
  have m0: "(bp, s, 0) \<in> set bs'" by (simp add: bs'_def)
  from insert_spec [OF W4 m0 nin] obtain h5 where
    i: "insert_to_free_list bp h4 = Some h5" and W5: "winv h5 bs' (fl_insert (bp, s) fl)"
    and k5: "keeps bs' h4 h5" and b5: "mem_brk h5 = mem_brk h4" by blast
  have hl: "heap_listp h \<noteq> NULL" using gb(1) W by (simp add: winv_def region_def)
  have bn: "bp \<noteq> NULL" using b4 by simp
  have fe: "free bp h = Option.bind (coalesce bp h5) (\<lambda>(r, h6). Some h6)"
    unfolding free_def Let_def gb(9)
    using bn hl i
    apply (simp only: if_False if_True bind.bind_lunit h1_def [symmetric] h2_def [symmetric]
        h3_def [symmetric] h4_def [symmetric] not_False_eq_True not_True_eq_False)
    done
  have C5: "complete bs' (fl_insert (bp, s) fl)"
    unfolding complete_def
  proof (clarify)
    fix b t
    assume a: "(b, t, 0) \<in> set bs'"
    show "(b, t) \<in> set (fl_insert (bp, s) fl (class_id t))"
    proof (cases "b = bp")
      case True
      with a have "(bp, t, 0) \<in> set bs'" by simp
      from winv_same_start [OF W4 this m0] True show ?thesis
        by (simp add: fl_insert_def set_ins)
    next
      case False
      with a have "(b, t, 0) \<in> set bs" by (auto simp: bs_def bs'_def)
      with C have "(b, t) \<in> set (fl (class_id t))" unfolding complete_def by blast
      then show ?thesis by (auto simp: fl_insert_def set_ins)
    qed
  qed
  have k: "keeps (pre @ post) h h5"
    by (rule keeps_trans [OF rt(2)]) (rule keeps_mono [OF k5], simp add: bs'_def)
  have b: "mem_brk h5 = mem_brk h" using b5 f4 by simp
  show ?thesis
    using fe W5 [unfolded bs'_def] C5 [unfolded bs'_def] k b by (intro exI [of _ h5] conjI)
qed

lemma free_spec:
  assumes G: "ginv h (pre @ (bp, s, 1) # post) fl"
  shows "\<exists>h' bs' fl'. free bp h = Some h' \<and> ginv h' bs' fl'
           \<and> keeps (pre @ post) h h' \<and> mem_brk h' = mem_brk h
           \<and> (\<forall>b u. (b, u, 1) \<in> set bs' \<longleftrightarrow> (b, u, 1) \<in> set (pre @ post))"
proof -
  from free_insert [OF G] obtain h5 where
    fe: "free bp h = Option.bind (coalesce bp h5) (\<lambda>(r, h6). Some h6)"
    and W5: "winv h5 (pre @ (bp, s, 0) # post) (fl_insert (bp, s) fl)"
    and C5: "complete (pre @ (bp, s, 0) # post) (fl_insert (bp, s) fl)"
    and k5: "keeps (pre @ post) h h5" and b5: "mem_brk h5 = mem_brk h" by blast
  from G have N: "no_adj (pre @ (bp, s, 1) # post)" by (simp add: ginv_def)
  from coalesce_ginv [OF W5 C5 N] obtain bp' h' bs' fl' where
    c: "coalesce bp h5 = Some (bp', h')" and G': "ginv h' bs' fl'"
    and k: "keeps (pre @ post) h5 h'" and b: "mem_brk h' = mem_brk h5"
    and al: "\<forall>b u. (b, u, 1) \<in> set bs' \<longleftrightarrow> (b, u, 1) \<in> set (pre @ post)" by blast
  have "free bp h = Some h'" using fe c by simp
  moreover have "keeps (pre @ post) h h'" by (rule keeps_trans [OF k5 k])
  ultimately show ?thesis using G' b b5 al by auto
qed

lemma free_exact:
  assumes G: "ginv h (pre @ (bp, s, 1) # post) fl"
    and pa: "pre = [] \<or> snd (snd (last pre)) = 1"
    and na: "post = [] \<or> snd (snd (hd post)) = 1"
  shows "\<exists>h'. free bp h = Some h' \<and> ginv h' (pre @ (bp, s, 0) # post) (fl_insert (bp, s) fl)
           \<and> keeps (pre @ post) h h' \<and> mem_brk h' = mem_brk h"
proof -
  from free_insert [OF G] obtain h5 where
    fe: "free bp h = Option.bind (coalesce bp h5) (\<lambda>(r, h6). Some h6)"
    and W5: "winv h5 (pre @ (bp, s, 0) # post) (fl_insert (bp, s) fl)"
    and C5: "complete (pre @ (bp, s, 0) # post) (fl_insert (bp, s) fl)"
    and k5: "keeps (pre @ post) h h5" and b5: "mem_brk h5 = mem_brk h" by blast
  from G have N: "no_adj (pre @ (bp, s, 1) # post)" by (simp add: ginv_def)
  have "no_adj (pre @ (bp, s, 0) # post)"
    using N pa na
    by (cases pre rule: rev_cases; cases post)
      (auto simp: no_adj_append no_adj_Cons simp del: no_adj.simps)
  with W5 C5 have "ginv h5 (pre @ (bp, s, 0) # post) (fl_insert (bp, s) fl)"
    by (simp add: ginv_def)
  moreover have "free bp h = Some h5" using fe coalesce_case1 [OF W5 pa na] by simp
  ultimately show ?thesis using k5 b5 by blast
qed

section \<open>Allocation\<close>

lemma adjusted_size_nowrap:
  "sz \<le> 2 ^ 64 - 16 \<Longrightarrow> adjusted_size sz = (if sz \<le> 8 then 16 else 8 * ((sz + 15) div 8))"
  by (simp add: adjusted_size_def add.commute)

lemma adjusted_size_facts:
  assumes "sz \<le> 2 ^ 64 - 16"
  shows "16 \<le> adjusted_size sz" "8 dvd adjusted_size sz" "sz + 8 \<le> adjusted_size sz"
    "adjusted_size sz < 2 ^ 64"
proof -
  note a = adjusted_size_nowrap [OF assms]
  show "16 \<le> adjusted_size sz" unfolding a by simp arith
  show "8 dvd adjusted_size sz" unfolding a by simp
  show "sz + 8 \<le> adjusted_size sz" unfolding a by simp arith
  show "adjusted_size sz < 2 ^ 64" unfolding a using assms by simp arith
qed

lemma place_ginv:
  assumes G: "ginv h bs fl" and m: "(bp, cs, 0) \<in> set bs"
    and a: "16 \<le> asize" "8 dvd asize" "asize \<le> cs"
  shows "\<exists>h' bs' fl' t. place bp asize h = Some (bp, h') \<and> ginv h' bs' fl'
           \<and> keeps bs h h' \<and> mem_brk h' = mem_brk h \<and> (bp, t, 1) \<in> set bs' \<and> asize \<le> t
           \<and> (\<forall>b u. (b, u, 1) \<in> set bs' \<longleftrightarrow> (b, u, 1) \<in> set bs \<or> b = bp \<and> u = t)"
proof -
  from split_list [OF m] obtain pre post where bs: "bs = pre @ (bp, cs, 0) # post" by blast
  note G' = G [unfolded bs]
  have km: "keeps bs h h'" if "keeps (pre @ post) h h'" for h'
    by (rule keeps_mono [OF that]) (auto simp: bs)
  show ?thesis
  proof (cases "asize + 16 \<le> cs")
    case True
    from place_split [OF G' a(1,2) True] obtain h' where
      p: "place bp asize h = Some (bp, h')"
      and g: "ginv h' (pre @ (bp, asize, 1) # (bp + asize, cs - asize, 0) # post)
                (fl_insert (bp + asize, cs - asize) (fl_remove (bp, cs) fl))"
      and k: "keeps (pre @ post) h h'" and b: "mem_brk h' = mem_brk h" by blast
    have "\<forall>b u. (b, u, 1) \<in> set (pre @ (bp, asize, 1) # (bp + asize, cs - asize, 0) # post)
        \<longleftrightarrow> (b, u, 1) \<in> set bs \<or> b = bp \<and> u = asize"
      by (auto simp: bs)
    with p g km [OF k] b show ?thesis
      by (intro exI [of _ h'] exI [of _ asize]
          exI [of _ "pre @ (bp, asize, 1) # (bp + asize, cs - asize, 0) # post"]
          exI [of _ "fl_insert (bp + asize, cs - asize) (fl_remove (bp, cs) fl)"]) simp
  next
    case False
    then have lt: "cs - asize < 16" by simp
    from place_whole [OF G' a(3) lt] obtain h' where
      p: "place bp asize h = Some (bp, h')"
      and g: "ginv h' (pre @ (bp, cs, 1) # post) (fl_remove (bp, cs) fl)"
      and k: "keeps (pre @ post) h h'" and b: "mem_brk h' = mem_brk h" by blast
    have "\<forall>b u. (b, u, 1) \<in> set (pre @ (bp, cs, 1) # post)
        \<longleftrightarrow> (b, u, 1) \<in> set bs \<or> b = bp \<and> u = cs"
      by (auto simp: bs)
    with p g km [OF k] b a(3) show ?thesis
      by (intro exI [of _ h'] exI [of _ cs] exI [of _ "pre @ (bp, cs, 1) # post"]
          exI [of _ "fl_remove (bp, cs) fl"]) simp
  qed
qed

lemma extend_size:
  assumes "8 dvd e" "e < 2 ^ 64"
  shows "(if (e div WSIZE) mod 2 \<noteq> 0 then (e div WSIZE + 1) * WSIZE else (e div WSIZE) * WSIZE)
           mod SIZE_T = e"
proof -
  from assms(1) obtain k where e: "e = 8 * k" by (rule dvdE)
  have "e div 4 = 2 * k" by (simp add: e)
  then show ?thesis using assms(2) by (simp add: e)
qed

lemma malloc_spec:
  assumes G: "ginv h bs fl" and sz: "0 < sz" "sz \<le> 2 ^ 64 - 16"
    and lim: "mem_max_addr h < heap_listp h + 2 ^ 32"
  shows "\<exists>p h'. malloc sz h = Some (p, h') \<and> (p = NULL \<longrightarrow> h' = h)
           \<and> (p \<noteq> NULL \<longrightarrow> (\<exists>bs' fl' t. ginv h' bs' fl' \<and> keeps bs h h'
                 \<and> mem_brk h \<le> mem_brk h'
                 \<and> (p, t, 1) \<in> set bs' \<and> sz + 8 \<le> t \<and> (\<forall>u. (p, u, 1) \<notin> set bs)
                 \<and> (\<forall>b u. (b, u, 1) \<in> set bs' \<longleftrightarrow> (b, u, 1) \<in> set bs \<or> b = p \<and> u = t)))"
proof -
  define asize where "asize = adjusted_size sz"
  note af = adjusted_size_facts [OF sz(2), folded asize_def]
  from G have W: "winv h bs fl" by (simp add: ginv_def)
  define bp where "bp = first_fit fl asize (class_id asize)"
  have ff: "find_fit asize h = Some bp" unfolding bp_def by (rule find_fit_spec [OF W])
  show ?thesis
  proof (cases "bp = NULL")
    case False
    from first_fit_found [of fl asize "class_id asize"] False obtain t c where
      l: "(bp, t) \<in> set (fl c)" and t: "asize \<le> t" by (auto simp: bp_def)
    have m: "(bp, t, 0) \<in> set bs" by (rule winv_listed(1) [OF W l])
    from place_ginv [OF G m af(1,2) t] obtain h' bs' fl' u where
      p: "place bp asize h = Some (bp, h')" and g: "ginv h' bs' fl'"
      and k: "keeps bs h h'" and b: "mem_brk h' = mem_brk h"
      and mu: "(bp, u, 1) \<in> set bs'" and u: "asize \<le> u"
      and al: "\<forall>b v. (b, v, 1) \<in> set bs' \<longleftrightarrow> (b, v, 1) \<in> set bs \<or> b = bp \<and> v = u"
      by blast
    have mal: "malloc sz h = Some (bp, h')"
      unfolding malloc_def using sz(1) False ff p by (simp add: Let_def asize_def [symmetric])
    have nu: "\<forall>v. (bp, v, 1) \<notin> set bs"
      using winv_same_start [OF W m] by fastforce
    have "sz + 8 \<le> u" using af(3) u by simp
    with g k b mu nu al have "\<exists>bs' fl' t. ginv h' bs' fl' \<and> keeps bs h h'
                 \<and> mem_brk h \<le> mem_brk h'
                 \<and> (bp, t, 1) \<in> set bs' \<and> sz + 8 \<le> t \<and> (\<forall>u. (bp, u, 1) \<notin> set bs)
                 \<and> (\<forall>b u. (b, u, 1) \<in> set bs' \<longleftrightarrow> (b, u, 1) \<in> set bs \<or> b = bp \<and> u = t)"
      by (intro exI [of _ bs'] exI [of _ fl'] exI [of _ u]) simp
    with mal False show ?thesis by (intro exI [of _ bp] exI [of _ h']) simp
  next
    case True
    define e where "e = max asize CHUNKSIZE"
    have e: "8 dvd e" "e < 2 ^ 64" "16 \<le> e" "asize \<le> e"
      using af by (auto simp: e_def max_def)
    note es = extend_size [OF e(1,2)]
    have ee: "max asize 256 = e" by (simp add: e_def)
    have mal0: "malloc sz h = Option.bind (extend_heap (e div WSIZE) h) (\<lambda>(bp, h1).
        if bp = NULL then Some (NULL, h1)
        else Option.bind (place bp asize h1) (\<lambda>(r, h2). Some (bp, h2)))"
      unfolding malloc_def using sz(1) True ff
      by (simp add: Let_def asize_def [symmetric] ee)
    show ?thesis
    proof (cases "mem_brk h + e \<le> mem_max_addr h")
      case False
      then have "mem_max_addr h < mem_brk h
        + (if (e div WSIZE) mod 2 \<noteq> 0 then (e div WSIZE + 1) * WSIZE else (e div WSIZE) * WSIZE)
            mod SIZE_T"
        unfolding es by simp
      from extend_heap_fail [OF this] have "malloc sz h = Some (NULL, h)"
        unfolding mal0 by simp
      then show ?thesis by simp
    next
      case ok: True
      with lim have ok': "mem_brk h + e < heap_listp h + 2 ^ 32" by simp
      from extend_heap_ok [OF G es [symmetric] e(3,1) ok ok'] obtain q h1 bs1 fl1 t where
        x: "extend_heap (e div WSIZE) h = Some (q, h1)" and g1: "ginv h1 bs1 fl1"
        and k1: "keeps bs h h1" and b1: "mem_brk h1 = mem_brk h + e"
        and al1: "\<forall>b u. (b, u, 1) \<in> set bs1 \<longleftrightarrow> (b, u, 1) \<in> set bs"
        and m1: "(q, t, 0) \<in> set bs1" and t: "e \<le> t" by blast
      from g1 have W1: "winv h1 bs1 fl1" by (simp add: ginv_def)
      have qn: "q \<noteq> NULL" using winv_geom(1) [OF W1 m1] by simp
      have at: "asize \<le> t" using e(4) t by simp
      from place_ginv [OF g1 m1 af(1,2) at] obtain h' bs' fl' u where
        p: "place q asize h1 = Some (q, h')" and g: "ginv h' bs' fl'"
        and k: "keeps bs1 h1 h'" and b: "mem_brk h' = mem_brk h1"
        and mu: "(q, u, 1) \<in> set bs'" and u: "asize \<le> u"
        and al: "\<forall>b v. (b, v, 1) \<in> set bs' \<longleftrightarrow> (b, v, 1) \<in> set bs1 \<or> b = q \<and> v = u"
        by blast
      have mal: "malloc sz h = Some (q, h')" unfolding mal0 using x qn p by simp
      have nu: "\<forall>v. (q, v, 1) \<notin> set bs"
        using winv_same_start [OF W1 m1] al1 by fastforce
      have kk: "keeps bs h h'"
        by (rule keeps_trans [OF k1]) (rule keeps_mono [OF k], use al1 in blast)
      have "sz + 8 \<le> u" using af(3) u by simp
      with g kk b b1 mu nu al al1 have "\<exists>bs' fl' t. ginv h' bs' fl' \<and> keeps bs h h'
                 \<and> mem_brk h \<le> mem_brk h'
                 \<and> (q, t, 1) \<in> set bs' \<and> sz + 8 \<le> t \<and> (\<forall>u. (q, u, 1) \<notin> set bs)
                 \<and> (\<forall>b u. (b, u, 1) \<in> set bs' \<longleftrightarrow> (b, u, 1) \<in> set bs \<or> b = q \<and> u = t)"
        by (intro exI [of _ bs'] exI [of _ fl'] exI [of _ u]) simp
      with mal qn show ?thesis by (intro exI [of _ q] exI [of _ h']) simp
    qed
  qed
qed

section \<open>Writing into a payload, \<open>realloc\<close> and \<open>calloc\<close>\<close>

lemma payload_write:
  assumes G: "ginv h bs fl" and m: "(p, t, 1) \<in> set bs"
    and f: "heap_listp h' = heap_listp h" "mem_brk h' = mem_brk h"
      "mem_max_addr h' = mem_max_addr h"
    and fr: "\<forall>a. a < p \<or> p + t \<le> a + 8 \<longrightarrow> mem h' a = mem h a"
  shows "ginv h' bs fl" and "keeps (filter (\<lambda>e. fst e \<noteq> p) bs) h h'"
proof -
  from split_list [OF m] obtain pre post where bs: "bs = pre @ [(p, t, 1)] @ post" by auto
  from G have W: "winv h (pre @ [(p, t, 1)] @ post) fl" and C: "complete bs fl"
    and N: "no_adj bs" by (simp_all add: ginv_def bs)
  note gb = winv_geom [OF W [folded bs] m]
  from W obtain lo hi where c1: "chain h (heap_listp h + 8) pre lo"
    and c2: "chain h lo [(p, t, 1)] hi" and c3: "chain h hi post (mem_brk h)"
    by (rule winv_chain_mid)
  from c2 have lo: "lo = p" and hi: "hi = p + t" by auto
  have fr': "mem h' a = mem h a" if "a < p \<or> p + t \<le> a + 8" for a using fr that by blast
  have nl: "\<forall>c. \<forall>(x, u) \<in> set (fl c). (x, u, 0 :: nat) \<notin> set [(p, t, 1)]" by auto
  have fr2: "\<forall>a. a + 4 < lo \<or> hi \<le> a + 4 \<longrightarrow> mem h' a = mem h a"
    by (auto simp: lo hi intro!: fr')
  have "GET h' (p - 4) = GET h (p - 4)"
    by (rule GET_frame) (use gb(1) in \<open>auto intro!: fr'\<close>)
  moreover have "GET h' (p + t - 8) = GET h (p + t - 8)"
    by (rule GET_frame) (use gb(3) in \<open>auto intro!: fr'\<close>)
  ultimately have new: "chain h' lo [(p, t, 1)] hi" using c2 by (simp add: lo hi)
  have lohi: "lo \<le> hi" by (simp add: lo hi)
  note rt = retag [OF W c1 c3 lohi nl f fr2 new]
  show "ginv h' bs fl" using rt(1) C N by (simp add: ginv_def bs)
  show "keeps (filter (\<lambda>e. fst e \<noteq> p) bs) h h'"
    by (rule keeps_mono [OF rt(2)]) (auto simp: bs)
qed

lemma memcpy_fields [simp]:
  "heap_listp (memcpy d s n h) = heap_listp h" "mem_brk (memcpy d s n h) = mem_brk h"
  "mem_max_addr (memcpy d s n h) = mem_max_addr h"
  by (simp_all add: memcpy_def)

lemma memset_fields [simp]:
  "heap_listp (memset d c n h) = heap_listp h" "mem_brk (memset d c n h) = mem_brk h"
  "mem_max_addr (memset d c n h) = mem_max_addr h"
  by (simp_all add: memset_def)

lemma memset_zero [simp]: "memset d c 0 h = h"
proof -
  have "(\<lambda>a. if d \<le> a \<and> a < d + 0 then c else mem h a) = mem h"
    by (auto simp: fun_eq_iff)
  then show ?thesis by (simp add: memset_def)
qed

lemma keeps_fields: "keeps bs h h' \<Longrightarrow> heap_listp h' = heap_listp h \<and> mem_max_addr h' = mem_max_addr h"
  by (simp add: keeps_def)

lemma keeps_payload:
  "keeps bs h h' \<Longrightarrow> (b, s, 1) \<in> set bs \<Longrightarrow> b \<le> x \<Longrightarrow> x + 8 < b + s \<Longrightarrow> mem h' x = mem h x"
  by (fastforce simp: keeps_def)

lemma realloc_spec:
  assumes G: "ginv h bs fl" and m: "(p, s, 1) \<in> set bs"
    and sz: "0 < sz" "sz \<le> 2 ^ 64 - 16"
    and lim: "mem_max_addr h < heap_listp h + 2 ^ 32"
  shows "\<exists>q h'. realloc p sz h = Some (q, h') \<and> (q = NULL \<longrightarrow> h' = h)
           \<and> (q \<noteq> NULL \<longrightarrow> (\<exists>bs' fl' t. ginv h' bs' fl'
                 \<and> keeps (filter (\<lambda>e. fst e \<noteq> p) bs) h h' \<and> mem_brk h \<le> mem_brk h'
                 \<and> (q, t, 1) \<in> set bs' \<and> sz + 8 \<le> t
                 \<and> (\<forall>b u. (b, u, 1) \<in> set bs' \<longleftrightarrow> (b, u, 1) \<in> set bs \<and> b \<noteq> p \<or> b = q \<and> u = t)
                 \<and> (\<forall>i. i < sz \<and> i + 8 < s \<longrightarrow> mem h' (q + i) = mem h (p + i))))"
proof -
  from G have W: "winv h bs fl" by (simp add: ginv_def)
  have pn: "p \<noteq> NULL" using winv_geom(1) [OF W m] by simp
  from malloc_spec [OF G sz lim] obtain q h1 where
    ma: "malloc sz h = Some (q, h1)" and qn: "q = NULL \<longrightarrow> h1 = h"
    and qs: "q \<noteq> NULL \<longrightarrow> (\<exists>bs' fl' t. ginv h1 bs' fl' \<and> keeps bs h h1
                 \<and> mem_brk h \<le> mem_brk h1
                 \<and> (q, t, 1) \<in> set bs' \<and> sz + 8 \<le> t \<and> (\<forall>u. (q, u, 1) \<notin> set bs)
                 \<and> (\<forall>b u. (b, u, 1) \<in> set bs' \<longleftrightarrow> (b, u, 1) \<in> set bs \<or> b = q \<and> u = t))"
    by blast
  show ?thesis
  proof (cases "q = NULL")
    case True
    with qn ma sz(1) pn have "realloc p sz h = Some (NULL, h)" by (simp add: realloc_def)
    then show ?thesis by simp
  next
    case False
    with qs obtain bs1 fl1 t where G1: "ginv h1 bs1 fl1" and k1: "keeps bs h h1"
      and b1: "mem_brk h \<le> mem_brk h1" and mq: "(q, t, 1) \<in> set bs1" and t: "sz + 8 \<le> t"
      and nq: "\<forall>u. (q, u, 1) \<notin> set bs"
      and al1: "\<forall>b u. (b, u, 1) \<in> set bs1 \<longleftrightarrow> (b, u, 1) \<in> set bs \<or> b = q \<and> u = t"
      by blast
    from G1 have W1: "winv h1 bs1 fl1" by (simp add: ginv_def)
    have mp1: "(p, s, 1) \<in> set bs1" using al1 m by blast
    have pq: "p \<noteq> q" using nq m by blast
    define n where "n = (if sz < s then sz else s)"
    define h2 where "h2 = memcpy q p n h1"
    have n: "n \<le> sz" by (simp add: n_def)
    have os: "GET_SIZE h1 (HDRP p) = s" by (rule winv_geom(9) [OF W1 mp1])
    have fr: "\<forall>a. a < q \<or> q + t \<le> a + 8 \<longrightarrow> mem h2 a = mem h1 a"
      using n t by (auto simp: h2_def memcpy_def)
    note pw = payload_write [OF G1 mq _ _ _ fr, unfolded h2_def, simplified, folded h2_def]
    from split_list [OF mp1] obtain pre post where bs1: "bs1 = pre @ (p, s, 1) # post" by blast
    from free_spec [OF pw(1) [unfolded bs1]] obtain h3 bs3 fl3 where
      fe: "free p h2 = Some h3" and G3: "ginv h3 bs3 fl3"
      and k3: "keeps (pre @ post) h2 h3" and b3: "mem_brk h3 = mem_brk h2"
      and al3: "\<forall>b u. (b, u, 1) \<in> set bs3 \<longleftrightarrow> (b, u, 1) \<in> set (pre @ post)" by blast
    have st: "distinct (map fst bs1)"
      using W1 chain_distinct [of h1 "heap_listp h1 + 8" bs1 "mem_brk h1"] by (simp add: winv_def)
    have pp: "(b, u, 1) \<in> set (pre @ post) \<longleftrightarrow> (b, u, 1) \<in> set bs1 \<and> b \<noteq> p" for b u
      using st by (auto simp: bs1 rev_image_eqI)
    have "memcpy q p (if sz < s then sz else GET_SIZE h1 (HDRP p)) h1 = h2"
      by (simp add: h2_def n_def os)
    then have re: "realloc p sz h = Some (q, h3)"
      unfolding realloc_def using sz(1) pn ma False fe
      by (simp add: Let_def os split del: if_split)
    have mq3: "(q, t, 1) \<in> set bs3" using al3 pp mq pq by blast
    have al: "\<forall>b u. (b, u, 1) \<in> set bs3 \<longleftrightarrow> (b, u, 1) \<in> set bs \<and> b \<noteq> p \<or> b = q \<and> u = t"
      using al3 pp al1 pq by blast
    have k12: "keeps (filter (\<lambda>e. fst e \<noteq> p) bs) h h2"
      by (rule keeps_trans [OF keeps_mono [OF k1] keeps_mono [OF pw(2)]])
        (use al1 nq in auto)
    have kk: "keeps (filter (\<lambda>e. fst e \<noteq> p) bs) h h3"
      by (rule keeps_trans [OF k12 keeps_mono [OF k3]]) (use al1 pp in auto)
    have cp: "mem h3 (q + i) = mem h (p + i)" if i: "i < sz" "i + 8 < s" for i
    proof -
      have mq': "(q, t, 1) \<in> set (pre @ post)" using pp mq pq by blast
      have "mem h3 (q + i) = mem h2 (q + i)"
        by (rule keeps_payload [OF k3 mq']) (use i t in simp_all)
      also have "\<dots> = mem h1 (p + i)" using i by (simp add: h2_def memcpy_def n_def)
      also have "\<dots> = mem h (p + i)"
        by (rule keeps_payload [OF k1 m]) (use i in simp_all)
      finally show ?thesis .
    qed
    have "\<exists>bs' fl' t. ginv h3 bs' fl'
                 \<and> keeps (filter (\<lambda>e. fst e \<noteq> p) bs) h h3 \<and> mem_brk h \<le> mem_brk h3
                 \<and> (q, t, 1) \<in> set bs' \<and> sz + 8 \<le> t
                 \<and> (\<forall>b u. (b, u, 1) \<in> set bs' \<longleftrightarrow> (b, u, 1) \<in> set bs \<and> b \<noteq> p \<or> b = q \<and> u = t)
                 \<and> (\<forall>i. i < sz \<and> i + 8 < s \<longrightarrow> mem h3 (q + i) = mem h (p + i))"
      using G3 kk b1 b3 mq3 t al cp
      by (intro exI [of _ bs3] exI [of _ fl3] exI [of _ t]) (simp add: h2_def)
    with re False show ?thesis by (intro exI [of _ q] exI [of _ h3]) simp
  qed
qed

lemma calloc_spec:
  assumes G: "ginv h bs fl"
    and nb: "bytes = (nmemb * sz) mod SIZE_T" "0 < bytes" "bytes \<le> 2 ^ 64 - 16"
    and lim: "mem_max_addr h < heap_listp h + 2 ^ 32"
  shows "malloc bytes h = Some (NULL, h) \<and> calloc nmemb sz h = Some (Inl NullWrite)
       \<or> (\<exists>q h'. calloc nmemb sz h = Some (Inr (q, h')) \<and> q \<noteq> NULL
             \<and> (\<exists>bs' fl' t. ginv h' bs' fl' \<and> keeps bs h h' \<and> mem_brk h \<le> mem_brk h'
                 \<and> (q, t, 1) \<in> set bs' \<and> bytes + 8 \<le> t
                 \<and> (\<forall>b u. (b, u, 1) \<in> set bs' \<longleftrightarrow> (b, u, 1) \<in> set bs \<or> b = q \<and> u = t)
                 \<and> (\<forall>i. i < bytes \<longrightarrow> mem h' (q + i) = 0)))"
proof -
  from malloc_spec [OF G nb(2,3) lim] obtain q h1 where
    ma: "malloc bytes h = Some (q, h1)" and qn: "q = NULL \<longrightarrow> h1 = h"
    and qs: "q \<noteq> NULL \<longrightarrow> (\<exists>bs' fl' t. ginv h1 bs' fl' \<and> keeps bs h h1
                 \<and> mem_brk h \<le> mem_brk h1
                 \<and> (q, t, 1) \<in> set bs' \<and> bytes + 8 \<le> t \<and> (\<forall>u. (q, u, 1) \<notin> set bs)
                 \<and> (\<forall>b u. (b, u, 1) \<in> set bs' \<longleftrightarrow> (b, u, 1) \<in> set bs \<or> b = q \<and> u = t))"
    by blast
  show ?thesis
  proof (cases "q = NULL")
    case True
    with qn ma nb(2) have "calloc nmemb sz h = Some (Inl NullWrite)"
      unfolding calloc_def nb(1) [symmetric] by (simp add: Let_def)
    with True qn ma show ?thesis by simp
  next
    case False
    with qs obtain bs1 fl1 t where G1: "ginv h1 bs1 fl1" and k1: "keeps bs h h1"
      and b1: "mem_brk h \<le> mem_brk h1" and mq: "(q, t, 1) \<in> set bs1" and t: "bytes + 8 \<le> t"
      and nq: "\<forall>u. (q, u, 1) \<notin> set bs"
      and al1: "\<forall>b u. (b, u, 1) \<in> set bs1 \<longleftrightarrow> (b, u, 1) \<in> set bs \<or> b = q \<and> u = t"
      by blast
    define h2 where "h2 = memset q 0 bytes h1"
    have fr: "\<forall>a. a < q \<or> q + t \<le> a + 8 \<longrightarrow> mem h2 a = mem h1 a"
      using t by (auto simp: h2_def memset_def)
    note pw = payload_write [OF G1 mq _ _ _ fr, unfolded h2_def, simplified, folded h2_def]
    have ca: "calloc nmemb sz h = Some (Inr (q, h2))"
      unfolding calloc_def nb(1) [symmetric] using ma False by (simp add: Let_def h2_def)
    have kk: "keeps bs h h2"
      by (rule keeps_trans [OF k1 keeps_mono [OF pw(2)]]) (use al1 nq in auto)
    have z: "\<forall>i. i < bytes \<longrightarrow> mem h2 (q + i) = 0" by (simp add: h2_def memset_def)
    have "\<exists>bs' fl' t. ginv h2 bs' fl' \<and> keeps bs h h2 \<and> mem_brk h \<le> mem_brk h2
                 \<and> (q, t, 1) \<in> set bs' \<and> bytes + 8 \<le> t
                 \<and> (\<forall>b u. (b, u, 1) \<in> set bs' \<longleftrightarrow> (b, u, 1) \<in> set bs \<or> b = q \<and> u = t)
                 \<and> (\<forall>i. i < bytes \<longrightarrow> mem h2 (q + i) = 0)"
      using pw(1) kk b1 mq t al1 z
      by (intro exI [of _ bs1] exI [of _ fl1] exI [of _ t]) (simp add: h2_def)
    with ca False show ?thesis by blast
  qed
qed

section \<open>Initialisation\<close>

lemma GET_upd [simp]:
  "GET (h\<lparr>heap_listp := x\<rparr>) a = GET h a" "GET (h\<lparr>mem_brk := y\<rparr>) a = GET h a"
  by (simp_all add: GET_def)

lemma heads_fold:
  "heap_listp (fold (\<lambda>c h. SET_HEAD (heap_listp h + c * WSIZE) NULL h) [0 ..< n] h) = heap_listp h
   \<and> mem_brk (fold (\<lambda>c h. SET_HEAD (heap_listp h + c * WSIZE) NULL h) [0 ..< n] h) = mem_brk h
   \<and> mem_max_addr (fold (\<lambda>c h. SET_HEAD (heap_listp h + c * WSIZE) NULL h) [0 ..< n] h)
       = mem_max_addr h
   \<and> (\<forall>c < n. GET (fold (\<lambda>c h. SET_HEAD (heap_listp h + c * WSIZE) NULL h) [0 ..< n] h)
         (heap_listp h + 4 * c) = 0)"
proof (induction n)
  case 0
  show ?case by simp
next
  case (Suc n)
  define g where "g = fold (\<lambda>c h. SET_HEAD (heap_listp h + c * WSIZE) NULL h) [0 ..< n] h"
  from Suc have f: "heap_listp g = heap_listp h" "mem_brk g = mem_brk h"
    "mem_max_addr g = mem_max_addr h"
    and z: "\<forall>c < n. GET g (heap_listp h + 4 * c) = 0" by (simp_all add: g_def)
  have "fold (\<lambda>c h. SET_HEAD (heap_listp h + c * WSIZE) NULL h) [0 ..< Suc n] h
      = SET_HEAD (heap_listp g + n * WSIZE) NULL g"
    by (simp add: g_def)
  then have s: "fold (\<lambda>c h. SET_HEAD (heap_listp h + c * WSIZE) NULL h) [0 ..< Suc n] h
      = PUT (heap_listp h + n * 4) 0 g"
    by (simp add: f SET_HEAD_def)
  have "GET (PUT (heap_listp h + n * 4) 0 g) (heap_listp h + 4 * c) = 0" if "c < Suc n" for c
  proof (cases "c = n")
    case True
    then show ?thesis using GET_PUT_same [of "heap_listp h + n * 4" 0 g] by (simp add: mult.commute)
  next
    case False
    with that have "c < n" by simp
    then show ?thesis using z by (simp add: GET_PUT_hi)
  qed
  then show ?case unfolding s using f by simp
qed

lemma mm_init_steps:
  assumes ok: "mem_brk h0 + 72 \<le> mem_max_addr h0"
  shows "\<exists>h8. mm_init h0 = Option.bind (extend_heap (CHUNKSIZE div WSIZE) h8)
             (\<lambda>(bp, h9). if bp = NULL then Some (- 1, h9) else Some (0, h9))
           \<and> ginv h8 [] (\<lambda>_. []) \<and> heap_listp h8 = mem_brk h0 + 64
           \<and> mem_brk h8 = mem_brk h0 + 72 \<and> mem_max_addr h8 = mem_max_addr h0"
proof -
  define p where "p = mem_brk h0"
  define h1 where "h1 = h0\<lparr>mem_brk := p + (CLASS_CNT + 4) * WSIZE, heap_listp := p\<rparr>"
  define h2 where "h2 = fold (\<lambda>c h. SET_HEAD (heap_listp h + c * WSIZE) NULL h) [0 ..< CLASS_CNT] h1"
  define h3 where "h3 = h2\<lparr>heap_listp := heap_listp h2 + CLASS_CNT * WSIZE\<rparr>"
  define h4 where "h4 = PUT (heap_listp h3) 0 h3"
  define h5 where "h5 = PUT (heap_listp h4 + 1 * WSIZE) (PACK DSIZE 1) h4"
  define h6 where "h6 = PUT (heap_listp h5 + 2 * WSIZE) (PACK DSIZE 1) h5"
  define h7 where "h7 = PUT (heap_listp h6 + 3 * WSIZE) (PACK 0 1) h6"
  define h8 where "h8 = h7\<lparr>heap_listp := heap_listp h7 + 2 * WSIZE\<rparr>"
  note hf = heads_fold [of CLASS_CNT h1, folded h2_def]
  have f2: "heap_listp h2 = p" "mem_brk h2 = p + 72" "mem_max_addr h2 = mem_max_addr h0"
    using hf by (simp_all add: h1_def)
  have z2: "GET h2 (p + 4 * c) = 0" if "c < CLASS_CNT" for c
    using hf that by (simp add: h1_def)
  have pk: "PACK DSIZE 1 = 9" "PACK 0 1 = 1" "PACK DSIZE (Suc 0) = 9" "PACK 0 (Suc 0) = 1"
    using PACK_tag [of 8 1] PACK_tag [of 0 1] by simp_all
  have ms: "mem_sbrk ((CLASS_CNT + 4) * WSIZE) h0
      = (Some p, h0\<lparr>mem_brk := p + (CLASS_CNT + 4) * WSIZE\<rparr>)"
    using ok by (simp add: mem_sbrk_def p_def)
  have e: "mm_init h0 = Option.bind (extend_heap (CHUNKSIZE div WSIZE) h8)
             (\<lambda>(bp, h9). if bp = NULL then Some (- 1, h9) else Some (0, h9))"
    unfolding mm_init_def ms Let_def
    by (simp only: prod.case option.case h1_def [symmetric] h2_def [symmetric]
        h3_def [symmetric] h4_def [symmetric] h5_def [symmetric] h6_def [symmetric]
        h7_def [symmetric] h8_def [symmetric])
  have a3: "h3 = h2\<lparr>heap_listp := p + 56\<rparr>" by (simp add: h3_def f2)
  have a4: "h4 = PUT (p + 56) 0 h3" by (simp add: h4_def a3)
  have a5: "h5 = PUT (p + 60) 9 h4" by (simp add: h5_def a4 a3 pk add.commute)
  have a6: "h6 = PUT (p + 64) 9 h5" by (simp add: h6_def a5 a4 a3 pk add.commute)
  have a7: "h7 = PUT (p + 68) 1 h6" by (simp add: h7_def a6 a5 a4 a3 pk add.commute)
  have a8: "h8 = h7\<lparr>heap_listp := p + 64\<rparr>" by (simp add: h8_def a7 a6 a5 a4 a3 add.commute)
  have f8: "heap_listp h8 = p + 64" "mem_brk h8 = p + 72" "mem_max_addr h8 = mem_max_addr h0"
    using f2 by (simp_all add: a8 a7 a6 a5 a4 a3)
  have g1: "GET h8 (p + 60) = 9"
    by (simp add: a8 a7 a6 a5 GET_PUT_hi GET_PUT_same')
  have g2: "GET h8 (p + 64) = 9" by (simp add: a8 a7 a6 GET_PUT_hi GET_PUT_same')
  have g3: "GET h8 (p + 68) = 1"
    using GET_PUT_same [of "p + 68" 1 h6] by (simp add: a8 a7)
  have g0: "GET h8 (p + 4 * c) = 0" if "c < CLASS_CNT" for c
    using z2 [OF that] that
    by (simp add: a8 a7 a6 a5 a4 a3 GET_PUT_hi)
  have r: "region h8" using f8 g1 g2 g3 ok by (simp add: region_def p_def add.commute)
  have lh: "list_head h8 c = p + 4 * c" if "c < CLASS_CNT" for c
    using list_head_eq [OF r, of c] that f8 by simp
  have "lists h8 [] (\<lambda>_. [])"
    unfolding lists_def using g0 lh by (simp add: GET_HEAD_def REL2ABS_def)
  with r f8 have "winv h8 [] (\<lambda>_. [])" by (simp add: winv_def)
  then have "ginv h8 [] (\<lambda>_. [])" by (simp add: ginv_def complete_def)
  with e f8 show ?thesis unfolding p_def by blast
qed

lemma mm_init_spec:
  assumes ok: "mem_brk h0 + 328 \<le> mem_max_addr h0"
  shows "\<exists>h'. mm_init h0 = Some (0, h')
           \<and> ginv h' [(mem_brk h0 + 72, 256, 0)] (fl_insert (mem_brk h0 + 72, 256) (\<lambda>_. []))
           \<and> heap_listp h' = mem_brk h0 + 64 \<and> mem_brk h' = mem_brk h0 + 328
           \<and> mem_max_addr h' = mem_max_addr h0"
proof -
  from ok have "mem_brk h0 + 72 \<le> mem_max_addr h0" by simp
  from mm_init_steps [OF this] obtain h8 where
    e: "mm_init h0 = Option.bind (extend_heap (CHUNKSIZE div WSIZE) h8)
             (\<lambda>(bp, h9). if bp = NULL then Some (- 1, h9) else Some (0, h9))"
    and G: "ginv h8 [] (\<lambda>_. [])" and f: "heap_listp h8 = mem_brk h0 + 64"
      "mem_brk h8 = mem_brk h0 + 72" "mem_max_addr h8 = mem_max_addr h0" by blast
  have sz: "(256 :: nat) = (if (CHUNKSIZE div WSIZE) mod 2 \<noteq> 0 then (CHUNKSIZE div WSIZE + 1) * WSIZE
      else (CHUNKSIZE div WSIZE) * WSIZE) mod SIZE_T" by simp
  have o1: "mem_brk h8 + 256 \<le> mem_max_addr h8" using ok f by simp
  have o2: "mem_brk h8 + 256 < heap_listp h8 + 2 ^ 32" using f by simp
  have s: "(16 :: nat) \<le> 256" "(8 :: nat) dvd 256" by simp_all
  have la: "([] :: blk list) = [] \<or> snd (snd (last ([] :: blk list))) = 1" by simp
  from extend_heap_exact [OF G sz s o1 o2 la] obtain h' where
    x: "extend_heap (CHUNKSIZE div WSIZE) h8 = Some (mem_brk h8, h')"
    and G': "ginv h' ([] @ [(mem_brk h8, 256, 0)]) (fl_insert (mem_brk h8, 256) (\<lambda>_. []))"
    and k: "keeps [] h8 h'" and b: "mem_brk h' = mem_brk h8 + 256" by blast
  have "mm_init h0 = Some (0, h')" unfolding e x using f by simp
  moreover note keeps_fields [OF k]
  ultimately show ?thesis using G' b f by simp
qed

lemma mm_init_ok:
  assumes "mm_init h0 = Some (0, h')"
  shows "mem_brk h0 + 328 \<le> mem_max_addr h0"
proof (rule ccontr)
  assume n: "\<not> mem_brk h0 + 328 \<le> mem_max_addr h0"
  show False
  proof (cases "mem_brk h0 + 72 \<le> mem_max_addr h0")
    case False
    then have "mm_init h0 = Some (- 1, h0\<lparr>heap_listp := SIZE_T - 1\<rparr>)"
      by (simp add: mm_init_def mem_sbrk_def)
    with assms show False by simp
  next
    case True
    from mm_init_steps [OF this] obtain h8 where
      e: "mm_init h0 = Option.bind (extend_heap (CHUNKSIZE div WSIZE) h8)
             (\<lambda>(bp, h9). if bp = NULL then Some (- 1, h9) else Some (0, h9))"
      and f: "mem_brk h8 = mem_brk h0 + 72" "mem_max_addr h8 = mem_max_addr h0" by blast
    have "mem_max_addr h8 < mem_brk h8
      + (if (CHUNKSIZE div WSIZE) mod 2 \<noteq> 0 then (CHUNKSIZE div WSIZE + 1) * WSIZE
         else (CHUNKSIZE div WSIZE) * WSIZE) mod SIZE_T"
      using n f by simp
    from extend_heap_fail [OF this] e assms show False by simp
  qed
qed

section \<open>The walks on a heap that has the invariant\<close>

lemma heap_walk_chain:
  "chain h p bs q \<Longrightarrow> GET_SIZE h (HDRP q) = 0 \<Longrightarrow> heap_walk h p = Some (map fst bs)"
proof (induction bs arbitrary: p)
  case Nil
  then show ?case by (subst heap_walk.simps) simp
next
  case (Cons e bs)
  obtain b s a where e: "e = (b, s, a)" by (cases e)
  from Cons.prems e have p: "b = p" and s: "16 \<le> s" "8 dvd s" "a < 2"
    and g: "GET h (p - 4) = s + a" and c: "chain h (p + s) bs q" by auto
  have z: "GET_SIZE h (HDRP p) = s" using g s by (simp add: HDRP_def GET_SIZE_tag)
  have n: "NEXT_BLKP h p = p + s" using z by (simp add: NEXT_BLKP_def HDRP_def)
  from Cons.IH [OF c Cons.prems(2)] have "heap_walk h (p + s) = Some (map fst bs)" .
  then show ?case using z s n e p by (subst heap_walk.simps) simp
qed

lemma heap_walk_winv:
  assumes W: "winv h bs fl"
  shows "heap_walk h (heap_listp h) = Some (heap_listp h # map fst bs)"
proof -
  from W have r: "region h" and c: "chain h (heap_listp h + 8) bs (mem_brk h)"
    by (simp_all add: winv_def)
  from r have g: "GET h (heap_listp h - 4) = 8 + 1" "GET h (mem_brk h - 4) = 0 + 1"
    by (simp_all add: region_def)
  have z: "GET_SIZE h (HDRP (heap_listp h)) = 8"
    using GET_SIZE_tag [OF g(1)] by (simp add: HDRP_def)
  have e: "GET_SIZE h (HDRP (mem_brk h)) = 0"
    using GET_SIZE_tag [OF g(2)] by (simp add: HDRP_def)
  have n: "NEXT_BLKP h (heap_listp h) = heap_listp h + 8"
    using z by (simp add: NEXT_BLKP_def HDRP_def)
  from heap_walk_chain [OF c e] show ?thesis
    using z n by (subst heap_walk.simps) simp
qed

lemma tags_agree_winv:
  assumes W: "winv h bs fl"
  shows "tags_agree h"
proof -
  from W have r: "region h" by (simp add: winv_def)
  have p: "GET_SIZE h (HDRP (heap_listp h)) = GET_SIZE h (FTRP h (heap_listp h))
      \<and> GET_ALLOC h (HDRP (heap_listp h)) = GET_ALLOC h (FTRP h (heap_listp h))"
  proof -
    from r have g: "GET h (heap_listp h - 4) = 8 + 1" "GET h (heap_listp h) = 9"
      by (simp_all add: region_def)
    have z: "GET_SIZE h (HDRP (heap_listp h)) = 8"
      using GET_SIZE_tag [OF g(1)] by (simp add: HDRP_def)
    then have "FTRP h (heap_listp h) = heap_listp h" by (simp add: FTRP_def)
    then show ?thesis using g by (simp add: GET_SIZE_def GET_ALLOC_def HDRP_def)
  qed
  have b: "GET_SIZE h (HDRP x) = GET_SIZE h (FTRP h x)
      \<and> GET_ALLOC h (HDRP x) = GET_ALLOC h (FTRP h x)" if "x \<in> fst ` set bs" for x
  proof -
    from that obtain s a where m: "(x, s, a) \<in> set bs" by force
    note g = winv_geom [OF W m]
    have "FTRP h x = x + s - 8" using g(9) by (simp add: FTRP_def)
    then show ?thesis using g(7,8) by (simp add: GET_SIZE_def GET_ALLOC_def HDRP_def)
  qed
  show ?thesis
    unfolding tags_agree_def heap_walk_winv [OF W] using p b by (simp add: list_all_iff)
qed

lemma free_pair_chain:
  "chain h p bs q \<Longrightarrow> no_adj bs \<Longrightarrow> \<not> free_pair h (map fst bs)"
proof (induction bs arbitrary: p)
  case Nil
  then show ?case by simp
next
  case (Cons e bs)
  obtain b s a where e: "e = (b, s, a)" by (cases e)
  show ?case
  proof (cases bs)
    case Nil
    then show ?thesis by simp
  next
    case (Cons e' bs')
    obtain b' s' a' where e': "e' = (b', s', a')" by (cases e')
    from Cons.prems(1) e Cons e' have c: "chain h (p + s) bs q"
      and g: "GET h (b - 4) = s + a" "8 dvd s" "a < 2"
      and g': "GET h (b' - 4) = s' + a'" "8 dvd s'" "a' < 2" by auto
    have a: "GET_ALLOC h (HDRP b) = a" "GET_ALLOC h (HDRP b') = a'"
      using g g' by (simp_all add: HDRP_def GET_ALLOC_tag)
    from Cons.prems(2) e Cons e' have n: "\<not> (a = 0 \<and> a' = 0)" "no_adj bs" by simp_all
    from Cons.IH [OF c n(2)] n(1) a show ?thesis using e Cons e' by simp
  qed
qed

lemma coalesced_ginv:
  assumes G: "ginv h bs fl"
  shows "coalesced h"
proof -
  from G have W: "winv h bs fl" and N: "no_adj bs" by (simp_all add: ginv_def)
  from W have r: "region h" and c: "chain h (heap_listp h + 8) bs (mem_brk h)"
    by (simp_all add: winv_def)
  from r have "GET h (heap_listp h - 4) = 8 + 1" by (simp add: region_def)
  from GET_ALLOC_tag [OF this] have a: "GET_ALLOC h (HDRP (heap_listp h)) = 1"
    by (simp add: HDRP_def)
  have "\<not> free_pair h (heap_listp h # map fst bs)"
    using free_pair_chain [OF c N] a by (cases bs) simp_all
  then show ?thesis by (simp add: coalesced_def heap_walk_winv [OF W])
qed

lemma list_walk_seg: "seg h prev cur xs NULL \<Longrightarrow> list_walk h cur = Some xs"
proof (induction xs arbitrary: prev cur)
  case Nil
  then show ?case by (subst list_walk.simps) simp
next
  case (Cons x xs)
  then have "list_walk h (GET_SUCC h x) = Some xs" and "cur = x" "x \<noteq> NULL" by auto
  then show ?case by (subst list_walk.simps) simp
qed

lemma seg_links:
  "seg h prev cur xs NULL \<Longrightarrow> b \<in> set xs \<Longrightarrow>
   (GET_SUCC h b = NULL \<or> GET_PRED h (GET_SUCC h b) = b)
   \<and> (b = cur \<and> GET_PRED h b = prev \<or> GET_SUCC h (GET_PRED h b) = b)"
proof (induction xs arbitrary: prev cur)
  case Nil
  then show ?case by simp
next
  case (Cons x xs)
  from Cons.prems(1) have x: "cur = x" "GET_PRED h x = prev"
    and s: "seg h x (GET_SUCC h x) xs NULL" by simp_all
  show ?case
  proof (cases "b = x")
    case True
    have "GET_SUCC h x = NULL \<or> GET_PRED h (GET_SUCC h x) = x"
      using s by (cases xs) auto
    with True x show ?thesis by simp
  next
    case False
    with Cons.prems(2) have "b \<in> set xs" by simp
    from Cons.IH [OF s this] show ?thesis by auto
  qed
qed

lemma linked_winv:
  assumes W: "winv h bs fl"
  shows "linked h"
proof -
  have "linked_list h (GET_HEAD h (list_head h c))" if c: "c < CLASS_CNT" for c
  proof -
    from W c have s: "seg h NULL (GET_HEAD h (list_head h c)) (map fst (fl c)) NULL"
      by (simp add: winv_def lists_def)
    have hd: "GET_HEAD h (list_head h c) = NULL \<or> GET_PRED h (GET_HEAD h (list_head h c)) = NULL"
      using s by (cases "fl c") auto
    have "(GET_SUCC h b = NULL \<or> GET_PRED h (GET_SUCC h b) = b)
        \<and> (GET_PRED h b = NULL \<or> GET_SUCC h (GET_PRED h b) = b)"
      if "b \<in> set (map fst (fl c))" for b
      using seg_links [OF s that] by auto
    then show ?thesis
      unfolding linked_list_def list_walk_seg [OF s] using hd by (simp add: list_all_iff)
  qed
  then show ?thesis by (simp add: linked_def list_all_iff)
qed

lemma free_lists_winv:
  assumes W: "winv h bs fl" and c: "c < CLASS_CNT"
  shows "free_lists h c = fl c"
proof -
  from W c have s: "seg h NULL (GET_HEAD h (list_head h c)) (map fst (fl c)) NULL"
    by (simp add: winv_def lists_def)
  have "(x, GET_SIZE h (HDRP x)) = (x, t)" if "(x, t) \<in> set (fl c)" for x t
    using winv_geom(9) [OF W winv_listed(1) [OF W that]] by simp
  then have "map (\<lambda>b. (b, GET_SIZE h (HDRP b))) (map fst (fl c)) = fl c"
    unfolding map_map by (intro map_idI) auto
  then show ?thesis by (simp add: free_lists_def list_walk_seg [OF s])
qed

section \<open>Every heap of a run has the invariant\<close>

lemma ok_init:
  assumes i: "mm_init h0 = Some (0, h)" and lim: "mem_max_addr h0 < mem_brk h0 + 2 ^ 32"
  shows "heap_ok h (\<lambda>p. None)"
proof -
  from mm_init_spec [OF mm_init_ok [OF i]] i
  have "ginv h [(mem_brk h0 + 72, 256, 0)] (fl_insert (mem_brk h0 + 72, 256) (\<lambda>_. []))"
    and "heap_listp h = mem_brk h0 + 64" and "mem_max_addr h = mem_max_addr h0" by auto
  with lim show ?thesis unfolding heap_ok_def by (intro exI conjI) auto
qed

lemma ok_malloc:
  assumes ok: "heap_ok h L" and sz: "sz \<le> 2 ^ 64 - 16" and m: "malloc sz h = Some (p, h')"
  shows "heap_ok h' (if p = NULL then L else L(p := Some sz))"
proof (cases "sz = 0")
  case True
  with m have "p = NULL" "h' = h" by (simp_all add: malloc_def)
  with ok show ?thesis by simp
next
  case False
  from ok obtain bs fl where G: "ginv h bs fl" and lim: "mem_max_addr h < heap_listp h + 2 ^ 32"
    and lv: "\<forall>p n. L p = Some n \<longrightarrow> (\<exists>s. (p, s, 1) \<in> set bs \<and> n + 8 \<le> s)"
    unfolding heap_ok_def by blast
  from False have "0 < sz" by simp
  from malloc_spec [OF G this sz lim] m
  have n: "p = NULL \<longrightarrow> h' = h"
    and s: "p \<noteq> NULL \<longrightarrow> (\<exists>bs' fl' t. ginv h' bs' fl' \<and> keeps bs h h'
                 \<and> mem_brk h \<le> mem_brk h'
                 \<and> (p, t, 1) \<in> set bs' \<and> sz + 8 \<le> t \<and> (\<forall>u. (p, u, 1) \<notin> set bs)
                 \<and> (\<forall>b u. (b, u, 1) \<in> set bs' \<longleftrightarrow> (b, u, 1) \<in> set bs \<or> b = p \<and> u = t))"
    by auto
  show ?thesis
  proof (cases "p = NULL")
    case True
    with n ok show ?thesis by simp
  next
    case False
    with s obtain bs' fl' t where G': "ginv h' bs' fl'" and k: "keeps bs h h'"
      and mp: "(p, t, 1) \<in> set bs'" and t: "sz + 8 \<le> t"
      and al: "\<forall>b u. (b, u, 1) \<in> set bs' \<longleftrightarrow> (b, u, 1) \<in> set bs \<or> b = p \<and> u = t" by blast
    have "\<exists>s. (q, s, 1) \<in> set bs' \<and> n + 8 \<le> s" if "(L(p := Some sz)) q = Some n" for q n
    proof (cases "q = p")
      case True
      with that mp t show ?thesis by auto
    next
      case False
      with that lv obtain s where "(q, s, 1) \<in> set bs" "n + 8 \<le> s" by auto
      with al show ?thesis by blast
    qed
    with G' keeps_fields [OF k] lim False show ?thesis
      unfolding heap_ok_def by (intro exI [of _ bs'] exI [of _ fl']) auto
  qed
qed

lemma ok_free:
  assumes ok: "heap_ok h L" and l: "L p = Some n" and f: "free p h = Some h'"
  shows "heap_ok h' (L(p := None))"
proof -
  from ok obtain bs fl where G: "ginv h bs fl" and lim: "mem_max_addr h < heap_listp h + 2 ^ 32"
    and lv: "\<forall>p n. L p = Some n \<longrightarrow> (\<exists>s. (p, s, 1) \<in> set bs \<and> n + 8 \<le> s)"
    unfolding heap_ok_def by blast
  from lv l obtain s where m: "(p, s, 1) \<in> set bs" by blast
  from split_list [OF m] obtain pre post where bs: "bs = pre @ (p, s, 1) # post" by blast
  from free_spec [OF G [unfolded bs]] f obtain bs' fl' where G': "ginv h' bs' fl'"
    and k: "keeps (pre @ post) h h'"
    and al: "\<forall>b u. (b, u, 1) \<in> set bs' \<longleftrightarrow> (b, u, 1) \<in> set (pre @ post)" by auto
  have "\<exists>s. (q, s, 1) \<in> set bs' \<and> n + 8 \<le> s" if "(L(p := None)) q = Some n" for q n
  proof -
    from that have q: "q \<noteq> p" "L q = Some n" by (auto split: if_splits)
    with lv obtain s' where "(q, s', 1) \<in> set bs" "n + 8 \<le> s'" by blast
    with q(1) al show ?thesis by (auto simp: bs)
  qed
  with G' keeps_fields [OF k] lim show ?thesis
    unfolding heap_ok_def by (intro exI [of _ bs'] exI [of _ fl']) auto
qed

lemma ok_realloc:
  assumes ok: "heap_ok h L" and l: "L p = Some n" and sz: "sz \<le> 2 ^ 64 - 16"
    and r: "realloc p sz h = Some (q, h')"
  shows "heap_ok h' (if sz = 0 then L(p := None) else if q = NULL then L
                      else (L(p := None))(q := Some sz))"
proof (cases "sz = 0")
  case True
  with r obtain h1 where "free p h = Some h1" "h' = h1"
    by (auto simp: realloc_def split: bind_splits)
  with ok_free [OF ok l] True show ?thesis by simp
next
  case False
  from ok obtain bs fl where G: "ginv h bs fl" and lim: "mem_max_addr h < heap_listp h + 2 ^ 32"
    and lv: "\<forall>p n. L p = Some n \<longrightarrow> (\<exists>s. (p, s, 1) \<in> set bs \<and> n + 8 \<le> s)"
    unfolding heap_ok_def by blast
  from lv l obtain s where m: "(p, s, 1) \<in> set bs" by blast
  from False have "0 < sz" by simp
  from realloc_spec [OF G m this sz lim] r
  have n: "q = NULL \<longrightarrow> h' = h"
    and s: "q \<noteq> NULL \<longrightarrow> (\<exists>bs' fl' t. ginv h' bs' fl'
                 \<and> keeps (filter (\<lambda>e. fst e \<noteq> p) bs) h h' \<and> mem_brk h \<le> mem_brk h'
                 \<and> (q, t, 1) \<in> set bs' \<and> sz + 8 \<le> t
                 \<and> (\<forall>b u. (b, u, 1) \<in> set bs' \<longleftrightarrow> (b, u, 1) \<in> set bs \<and> b \<noteq> p \<or> b = q \<and> u = t)
                 \<and> (\<forall>i. i < sz \<and> i + 8 < s \<longrightarrow> mem h' (q + i) = mem h (p + i)))"
    by auto
  show ?thesis
  proof (cases "q = NULL")
    case True
    with n ok False show ?thesis by simp
  next
    case qn: False
    with s obtain bs' fl' t where G': "ginv h' bs' fl'"
      and k: "keeps (filter (\<lambda>e. fst e \<noteq> p) bs) h h'"
      and mq: "(q, t, 1) \<in> set bs'" and t: "sz + 8 \<le> t"
      and al: "\<forall>b u. (b, u, 1) \<in> set bs' \<longleftrightarrow> (b, u, 1) \<in> set bs \<and> b \<noteq> p \<or> b = q \<and> u = t"
      by blast
    have "\<exists>s. (x, s, 1) \<in> set bs' \<and> n + 8 \<le> s"
      if "((L(p := None))(q := Some sz)) x = Some n" for x n
    proof (cases "x = q")
      case True
      with that mq t show ?thesis by auto
    next
      case xq: False
      with that have x: "x \<noteq> p" "L x = Some n" by (auto split: if_splits)
      with lv obtain s' where "(x, s', 1) \<in> set bs" "n + 8 \<le> s'" by blast
      with x(1) al show ?thesis by blast
    qed
    with G' keeps_fields [OF k] lim False qn show ?thesis
      unfolding heap_ok_def by (intro exI [of _ bs'] exI [of _ fl']) auto
  qed
qed

lemma ok_realloc_null:
  assumes ok: "heap_ok h L" and sz: "sz \<le> 2 ^ 64 - 16"
    and r: "realloc NULL sz h = Some (q, h')"
  shows "heap_ok h' (if q = NULL then L else L(q := Some sz))"
proof (cases "sz = 0")
  case True
  with r have "q = NULL" "h' = h" by (auto simp: realloc_def free_def)
  with ok show ?thesis by simp
next
  case False
  with r have "malloc sz h = Some (q, h')" by (simp add: realloc_def)
  from ok_malloc [OF ok sz this] show ?thesis .
qed

lemma ok_calloc:
  assumes ok: "heap_ok h L" and sz: "(nmemb * sz) mod SIZE_T \<le> 2 ^ 64 - 16"
    and c: "calloc nmemb sz h = Some (Inr (q, h'))"
  shows "heap_ok h' (if q = NULL then L else L(q := Some ((nmemb * sz) mod SIZE_T)))"
proof -
  define bytes where "bytes = (nmemb * sz) mod SIZE_T"
  show ?thesis
  proof (cases "bytes = 0")
    case True
    have "calloc nmemb sz h = Some (Inr (NULL, h))"
      unfolding calloc_def bytes_def [symmetric] using True by (simp add: Let_def malloc_def)
    with c ok show ?thesis by simp
  next
    case False
    from ok obtain bs fl where G: "ginv h bs fl"
      and lim: "mem_max_addr h < heap_listp h + 2 ^ 32"
      and lv: "\<forall>p n. L p = Some n \<longrightarrow> (\<exists>s. (p, s, 1) \<in> set bs \<and> n + 8 \<le> s)"
      unfolding heap_ok_def by blast
    from False have b0: "0 < bytes" by simp
    from calloc_spec [OF G bytes_def b0 sz [folded bytes_def] lim] c
    obtain bs' fl' t where qn: "q \<noteq> NULL" and G': "ginv h' bs' fl'" and k: "keeps bs h h'"
      and mq: "(q, t, 1) \<in> set bs'" and t: "bytes + 8 \<le> t"
      and al: "\<forall>b u. (b, u, 1) \<in> set bs' \<longleftrightarrow> (b, u, 1) \<in> set bs \<or> b = q \<and> u = t"
      by auto
    have "\<exists>s. (x, s, 1) \<in> set bs' \<and> n + 8 \<le> s" if "(L(q := Some bytes)) x = Some n" for x n
    proof (cases "x = q")
      case True
      with that mq t show ?thesis by auto
    next
      case False
      with that lv obtain s where "(x, s, 1) \<in> set bs" "n + 8 \<le> s" by auto
      with al show ?thesis by blast
    qed
    with G' keeps_fields [OF k] lim qn show ?thesis
      unfolding heap_ok_def bytes_def [symmetric]
      by (intro exI [of _ bs'] exI [of _ fl']) auto
  qed
qed

lemma ok_write:
  assumes ok: "heap_ok h L" and l: "L p = Some n" and a: "p \<le> a" "a < p + n"
  shows "heap_ok (h\<lparr>mem := (mem h)(a := v)\<rparr>) L"
proof -
  from ok obtain bs fl where G: "ginv h bs fl" and lim: "mem_max_addr h < heap_listp h + 2 ^ 32"
    and lv: "\<forall>p n. L p = Some n \<longrightarrow> (\<exists>s. (p, s, 1) \<in> set bs \<and> n + 8 \<le> s)"
    unfolding heap_ok_def by blast
  from lv l obtain s where m: "(p, s, 1) \<in> set bs" and s: "n + 8 \<le> s" by blast
  have fr: "\<forall>x. x < p \<or> p + s \<le> x + 8 \<longrightarrow> mem (h\<lparr>mem := (mem h)(a := v)\<rparr>) x = mem h x"
    using a s by auto
  from payload_write(1) [OF G m _ _ _ fr] have "ginv (h\<lparr>mem := (mem h)(a := v)\<rparr>) bs fl"
    by simp
  with lim lv show ?thesis unfolding heap_ok_def by (intro exI [of _ bs] exI [of _ fl]) simp
qed

lemma reach_ok:
  assumes "reach S h L" and S: "S \<le> 2 ^ 64 - 16"
  shows "heap_ok h L"
  using assms(1)
proof (induction rule: reach.induct)
  case (r_init h0 h)
  then show ?case by (rule ok_init)
next
  case (r_malloc h L sz p h')
  from r_malloc(2) S have "sz \<le> 2 ^ 64 - 16" by simp
  from ok_malloc [OF r_malloc.IH this r_malloc(3)] show ?case .
next
  case (r_free h L p n h')
  from ok_free [OF r_free.IH r_free(2,3)] show ?case .
next
  case (r_free_null h L h')
  then show ?case by (simp add: free_def)
next
  case (r_realloc h L p n sz q h')
  from r_realloc(3) S have "sz \<le> 2 ^ 64 - 16" by simp
  from ok_realloc [OF r_realloc.IH r_realloc(2) this r_realloc(4)] show ?case .
next
  case (r_realloc_null h L sz q h')
  from r_realloc_null(2) S have "sz \<le> 2 ^ 64 - 16" by simp
  from ok_realloc_null [OF r_realloc_null.IH this r_realloc_null(3)] show ?case .
next
  case (r_calloc h L nmemb sz q h')
  from r_calloc(2) S have "(nmemb * sz) mod SIZE_T \<le> 2 ^ 64 - 16" by simp
  from ok_calloc [OF r_calloc.IH this r_calloc(3)] show ?case .
next
  case (r_write h L p n a v)
  from ok_write [OF r_write.IH r_write(2,3,4)] show ?case .
qed

section \<open>Computing on the example region\<close>

text \<open>
  The rules below compute the operations on a heap given by its constructors, one
  call after the other: the body of a \<open>let\<close>, of a \<open>case\<close> or of a continuation is
  entered only once its argument has got a value.
\<close>

lemma heap0_simps:
  "mem_brk heap0 = 4096" "mem_max_addr heap0 = 5120" "heap_listp heap0 = 0" "GET heap0 p = 0"
  by (simp_all add: heap0_def GET_def)

lemma bind_weak_cong: "x = y \<Longrightarrow> Option.bind x f = Option.bind y f"
  by simp

lemma GET_memcpy_in:
  assumes "d \<le> q" "q + 4 \<le> d + n"
  shows "GET (memcpy d s n h) q = GET h (s + (q - d))"
proof -
  have "mem (memcpy d s n h) (q + k) = mem h (s + (q - d) + k)" if "k < 4" for k
  proof -
    have "s + (q + k - d) = s + (q - d) + k" using assms by simp
    then show ?thesis using assms that by (simp add: memcpy_def)
  qed
  from this [of 0] this [of 1] this [of 2] this [of 3] show ?thesis by (simp add: GET_def)
qed

lemma GET_memcpy_out:
  "q + 4 \<le> d \<or> d + n \<le> q \<Longrightarrow> GET (memcpy d s n h) q = GET h q"
  by (auto simp: GET_def memcpy_def)

lemmas evc = let_weak_cong option.case_cong_weak prod.case_cong_weak bind_weak_cong

lemmas ev = heap0_simps GET_PUT_same GET_PUT_lo GET_PUT_hi GET_memcpy_in GET_memcpy_out
  GET_SIZE_eq GET_ALLOC_eq
  PACK_def HDRP_def FTRP_def NEXT_BLKP_def PREV_BLKP_def ABS2REL_def REL2ABS_def PREDP_def
  SUCCP_def GET_PRED_def GET_SUCC_def GET_HEAD_def SET_HEAD_def SET_PRED_def SET_SUCC_def
  class_id_def get_listp_def list_head_def insert_to_free_list_def remove_from_free_list_def
  find_fit_def coalesce_def size_t_sub_def place_def extend_heap_def mem_sbrk_def mm_init_def
  adjusted_size_def malloc_def free_def realloc_def calloc_def Let_def
  insert_walk.simps find_fit_list.simps find_fit_heads.simps heap_walk.simps list_walk.simps
  upt_conv_Cons

lemma init_heap1: "mm_init heap0 = Some (0, heap1)"
  by (simp add: heap1_def ev cong: evc)

lemma heap1_fields:
  "heap_listp heap1 = 4160" "mem_brk heap1 = 4424" "mem_max_addr heap1 = 5120"
  by (simp_all add: heap1_def ev cong: evc)

lemma ginv_heap1: "ginv heap1 [(4168, 256, 0)] (fl_insert (4168, 256) (\<lambda>c. []))"
  using mm_init_spec [of heap0] init_heap1 by (simp add: heap0_simps)

lemma reach_heap1: "reach S heap1 (\<lambda>p. None)"
  by (rule reach.r_init [OF init_heap1]) (simp add: heap0_simps)

section \<open>An allocation that finds a fit\<close>

lemma malloc_fit:
  assumes G: "ginv h (pre @ (bp, cs, 0) # post) fl" and sz: "0 < sz" "sz \<le> 2 ^ 64 - 16"
    and ff: "first_fit fl (adjusted_size sz) (class_id (adjusted_size sz)) = bp"
  shows "adjusted_size sz + 16 \<le> cs \<Longrightarrow>
      \<exists>h'. malloc sz h = Some (bp, h') \<and> mem_brk h' = mem_brk h
        \<and> ginv h' (pre @ (bp, adjusted_size sz, 1)
               # (bp + adjusted_size sz, cs - adjusted_size sz, 0) # post)
             (fl_insert (bp + adjusted_size sz, cs - adjusted_size sz) (fl_remove (bp, cs) fl))"
    and "adjusted_size sz \<le> cs \<Longrightarrow> cs < adjusted_size sz + 16 \<Longrightarrow>
      \<exists>h'. malloc sz h = Some (bp, h') \<and> mem_brk h' = mem_brk h
        \<and> ginv h' (pre @ (bp, cs, 1) # post) (fl_remove (bp, cs) fl)"
proof -
  from G have W: "winv h (pre @ (bp, cs, 0) # post) fl" by (simp add: ginv_def)
  have bn: "bp \<noteq> NULL" using winv_geom(1) [OF W, of bp cs 0] by simp
  note af = adjusted_size_facts [OF sz(2)]
  have f: "find_fit (adjusted_size sz) h = Some bp" using find_fit_spec [OF W] ff by simp
  have m: "malloc sz h = Option.bind (place bp (adjusted_size sz) h) (\<lambda>(r, h1). Some (bp, h1))"
    unfolding malloc_def using sz(1) f bn by (simp add: Let_def)
  {
    assume "adjusted_size sz + 16 \<le> cs"
    from place_split [OF G af(1,2) this] m
    show "\<exists>h'. malloc sz h = Some (bp, h') \<and> mem_brk h' = mem_brk h
        \<and> ginv h' (pre @ (bp, adjusted_size sz, 1)
               # (bp + adjusted_size sz, cs - adjusted_size sz, 0) # post)
             (fl_insert (bp + adjusted_size sz, cs - adjusted_size sz) (fl_remove (bp, cs) fl))"
      by auto
  next
    assume a: "adjusted_size sz \<le> cs" "cs < adjusted_size sz + 16"
    then have "cs - adjusted_size sz < 16" by simp
    from place_whole [OF G a(1) this] m
    show "\<exists>h'. malloc sz h = Some (bp, h') \<and> mem_brk h' = mem_brk h
        \<and> ginv h' (pre @ (bp, cs, 1) # post) (fl_remove (bp, cs) fl)"
      by auto
  }
qed

section \<open>The first fit is the smallest\<close>

lemma class_id_mono: "s \<le> t \<Longrightarrow> class_id s \<le> class_id t"
  by (simp add: class_id_def)

lemma first_fit_cong:
  assumes "\<And>c. c < CLASS_CNT \<Longrightarrow> f c = g c"
  shows "first_fit f asize c0 = first_fit g asize c0"
proof -
  have "map f [c0 ..< CLASS_CNT] = map g [c0 ..< CLASS_CNT]" by (rule map_cong) (auto simp: assms)
  then show ?thesis unfolding first_fit_def fits_def by (simp only:)
qed

lemma fits_sorted_hd:
  assumes "sorted (map snd xs)" and "(x, s) \<in> set xs" and "asize \<le> s"
  shows "filter (\<lambda>y. asize \<le> snd y) xs \<noteq> []
    \<and> snd (hd (filter (\<lambda>y. asize \<le> snd y) xs)) \<le> s"
  using assms
proof (induction xs)
  case Nil
  then show ?case by simp
next
  case (Cons y ys)
  show ?case
  proof (cases "asize \<le> snd y")
    case True
    with Cons.prems show ?thesis by auto
  next
    case False
    with Cons.prems have "(x, s) \<in> set ys" by auto
    with Cons False show ?thesis by simp
  qed
qed

lemma first_fit_min:
  assumes so: "\<And>c. c < CLASS_CNT \<Longrightarrow> sorted (map snd (fl c))"
    and cl: "\<And>c y. c < CLASS_CNT \<Longrightarrow> y \<in> set (fl c) \<Longrightarrow> class_id (snd y) = c"
    and c: "c < CLASS_CNT" and m: "(x, s) \<in> set (fl c)" and a: "asize \<le> s"
    and c0: "c0 \<le> c"
  shows "\<exists>y. fits fl asize c0 = y # tl (fits fl asize c0) \<and> snd y \<le> s"
  using c0
proof (induction "c - c0" arbitrary: c0)
  case 0
  then have e: "c0 = c" by simp
  from fits_sorted_hd [OF so [OF c] m a]
  have "filter (\<lambda>y. asize \<le> snd y) (fl c) \<noteq> []"
    and "snd (hd (filter (\<lambda>y. asize \<le> snd y) (fl c))) \<le> s" by simp_all
  then show ?case unfolding e fits_step [OF c]
    by (cases "filter (\<lambda>y. asize \<le> snd y) (fl c)")
      (simp, intro exI [of _ "hd (filter (\<lambda>y. asize \<le> snd y) (fl c))"], simp)
next
  case (Suc n)
  then have lt: "c0 < c" "c0 < CLASS_CNT" using c by simp_all
  from Suc have "Suc c0 \<le> c" "n = c - Suc c0" by simp_all
  from Suc.hyps(1) [OF this(2,1)] obtain y where
    y: "fits fl asize (Suc c0) = y # tl (fits fl asize (Suc c0))" "snd y \<le> s" by blast
  show ?case
  proof (cases "filter (\<lambda>y. asize \<le> snd y) (fl c0)")
    case Nil
    with y show ?thesis unfolding fits_step [OF lt(2)] by (intro exI [of _ y]) simp
  next
    case (Cons z zs)
    then have "z \<in> set (filter (\<lambda>y. asize \<le> snd y) (fl c0))" by simp
    then have "z \<in> set (fl c0)" by simp
    from cl [OF lt(2) this] cl [OF c m] lt(1) have "class_id (snd z) < class_id s" by simp
    then have "snd z \<le> s" using class_id_mono [of s "snd z"] by (cases "snd z \<le> s") auto
    with Cons show ?thesis unfolding fits_step [OF lt(2)] by (intro exI [of _ z]) simp
  qed
qed

section \<open>Header and footer of every block agree (claim C3)\<close>

text \<open>
  Claim C3, as amended. In every heap that a program finds before or after a call, after
  a successful \<open>mm_init\<close> on a region of less than \<open>2 ^ 32\<close> bytes and any sequence of calls
  of \<open>malloc\<close>, \<open>free\<close>, \<open>realloc\<close> and \<open>calloc\<close> whose requests are of at most
  \<open>2 ^ 64 - 16\<close> bytes each, the header and the footer of every block that the walk of
  \<open>mm_checkheap\<close> visits give the same size and the same allocated bit.
\<close>

theorem C3_tags_agree:
  assumes "reach S h L" and "S \<le> 2 ^ 64 - 16"
  shows "tags_agree h"
proof -
  from reach_ok [OF assms] obtain bs fl where "ginv h bs fl" unfolding heap_ok_def by blast
  then have "winv h bs fl" by (simp add: ginv_def)
  then show ?thesis by (rule tags_agree_winv)
qed

theorem C3_tags_agree_witness:
  "reach 16 (snd (the (malloc 16 heap1))) ((\<lambda>p. None)(4168 := Some 16))
   \<and> (16 :: nat) \<le> 2 ^ 64 - 16 \<and> tags_agree (snd (the (malloc 16 heap1)))"
proof -
  define h2 where "h2 = snd (the (malloc 16 heap1))"
  have m2: "malloc 16 heap1 = Some (4168, h2)"
    by (simp add: h2_def heap1_def ev cong: evc)
  have r2: "reach 16 h2 ((\<lambda>p. None)(4168 := Some 16))"
    using reach.r_malloc [OF reach_heap1 _ m2, of 16] by simp
  from C3_tags_agree [OF r2] r2 show ?thesis unfolding h2_def by simp
qed

text \<open>
  Claim C3 as stated fails: \<open>malloc (2 ^ 64 - 8)\<close> computes the adjusted size 0, finds the
  free block at 4192 and writes the tag of a block of size 0 into its header and, 8
  bytes below its payload, into the footer of the allocated block at 4168, whose
  header still reads 25.
\<close>

theorem C3_counterexample:
  "\<exists>h2 h3. malloc 16 heap1 = Some (4168, h2) \<and> malloc (2 ^ 64 - 8) h2 = Some (4192, h3)
     \<and> reach (2 ^ 64 - 1) h3 ((\<lambda>p. None)(4168 := Some 16, 4192 := Some (2 ^ 64 - 8)))
     \<and> GET h3 (HDRP 4168) = 25 \<and> GET h3 (FTRP h3 4168) = 1 \<and> \<not> tags_agree h3"
proof -
  define h2 where "h2 = snd (the (malloc 16 heap1))"
  define h3 where "h3 = snd (the (malloc (2 ^ 64 - 8) h2))"
  have m2: "malloc 16 heap1 = Some (4168, h2)"
    by (simp add: h2_def heap1_def ev cong: evc)
  have m3: "malloc (2 ^ 64 - 8) h2 = Some (4192, h3)"
    by (simp add: h3_def h2_def heap1_def ev cong: evc)
  have r2: "reach (2 ^ 64 - 1) h2 ((\<lambda>p. None)(4168 := Some 16))"
    using reach.r_malloc [OF reach_heap1 _ m2, of "2 ^ 64 - 1"] by simp
  have r3: "reach (2 ^ 64 - 1) h3 ((\<lambda>p. None)(4168 := Some 16, 4192 := Some (2 ^ 64 - 8)))"
    using reach.r_malloc [OF r2 _ m3] by simp
  have g: "GET h3 (HDRP 4168) = 25" "GET h3 (FTRP h3 4168) = 1"
    by (simp_all add: h3_def h2_def heap1_def ev cong: evc)
  have t: "\<not> tags_agree h3"
    by (simp add: tags_agree_def h3_def h2_def heap1_def ev cong: evc)
  from m2 m3 r3 g t show ?thesis by blast
qed

section \<open>No two neighbours are both free (claim C4)\<close>

text \<open>
  Claim C4, as amended. In every heap that a program finds before or after a call (so,
  after every \<open>free\<close>), after a successful \<open>mm_init\<close> on a region of less than \<open>2 ^ 32\<close>
  bytes and any sequence of calls whose requests are of at most \<open>2 ^ 64 - 16\<close> bytes
  each, no two blocks that follow each other in the walk of the heap are both free.
\<close>

theorem C4_coalesced:
  assumes "reach S h L" and "S \<le> 2 ^ 64 - 16"
  shows "coalesced h"
proof -
  from reach_ok [OF assms] obtain bs fl where "ginv h bs fl" unfolding heap_ok_def by blast
  then show ?thesis by (rule coalesced_ginv)
qed

theorem C4_coalesced_witness:
  "reach 16 (the (free 4168 (snd (the (malloc 16 heap1))))) (\<lambda>p. None)
   \<and> (16 :: nat) \<le> 2 ^ 64 - 16 \<and> coalesced (the (free 4168 (snd (the (malloc 16 heap1)))))"
proof -
  define h2 where "h2 = snd (the (malloc 16 heap1))"
  define h3 where "h3 = the (free 4168 h2)"
  have m2: "malloc 16 heap1 = Some (4168, h2)"
    by (simp add: h2_def heap1_def ev cong: evc)
  have f3: "free 4168 h2 = Some h3"
    by (simp add: h3_def h2_def heap1_def ev cong: evc)
  have r2: "reach 16 h2 ((\<lambda>p. None)(4168 := Some 16))"
    using reach.r_malloc [OF reach_heap1 _ m2, of 16] by simp
  have "((\<lambda>p. None)(4168 := Some 16 :: nat option))(4168 := None) = (\<lambda>p. None)" by auto
  with reach.r_free [OF r2 _ f3, of 16] have r3: "reach 16 h3 (\<lambda>p. None)" by simp
  from C4_coalesced [OF r3] r3 show ?thesis unfolding h3_def h2_def by simp
qed

text \<open>
  Claim C4 as stated fails. \<open>malloc (2 ^ 64 - 8)\<close> computes the adjusted size 0 and
  leaves the tag of a block of size 0 in the footer of the prologue; it returns 4168,
  which stays free, and the next \<open>malloc 16\<close> returns 4168 again. When 4168 is freed,
  \<open>coalesce\<close> reads that footer, takes the block itself for its free predecessor and
  doubles its size to 48: it now covers the allocated block at 4192 and is followed by
  the free block at 4216.
\<close>

theorem C4_counterexample:
  "\<exists>h2 h3 h4 h5 L. malloc (2 ^ 64 - 8) heap1 = Some (4168, h2)
     \<and> malloc 16 h2 = Some (4168, h3) \<and> malloc 16 h3 = Some (4192, h4)
     \<and> free 4168 h4 = Some h5 \<and> reach (2 ^ 64 - 1) h5 L
     \<and> heap_walk h5 (heap_listp h5) = Some [4160, 4168, 4216]
     \<and> GET_ALLOC h5 (HDRP 4168) = 0 \<and> GET_ALLOC h5 (HDRP 4216) = 0 \<and> \<not> coalesced h5"
proof -
  define h2 where "h2 = snd (the (malloc (2 ^ 64 - 8) heap1))"
  define h3 where "h3 = snd (the (malloc 16 h2))"
  define h4 where "h4 = snd (the (malloc 16 h3))"
  define h5 where "h5 = the (free 4168 h4)"
  note d = h5_def h4_def h3_def h2_def heap1_def
  have m2: "malloc (2 ^ 64 - 8) heap1 = Some (4168, h2)"
    by (simp add: h2_def heap1_def ev cong: evc)
  have m3: "malloc 16 h2 = Some (4168, h3)"
    by (simp add: h3_def h2_def heap1_def ev cong: evc)
  have m4: "malloc 16 h3 = Some (4192, h4)"
    by (simp add: h4_def h3_def h2_def heap1_def ev cong: evc)
  have f5: "free 4168 h4 = Some h5"
    by (simp add: d ev cong: evc)
  have r2: "reach (2 ^ 64 - 1) h2 ((\<lambda>p. None)(4168 := Some (2 ^ 64 - 8)))"
    using reach.r_malloc [OF reach_heap1 _ m2, of "2 ^ 64 - 1"] by simp
  have r3: "reach (2 ^ 64 - 1) h3 ((\<lambda>p. None)(4168 := Some 16))"
    using reach.r_malloc [OF r2 _ m3] by simp
  have r4: "reach (2 ^ 64 - 1) h4 ((\<lambda>p. None)(4168 := Some 16, 4192 := Some 16))"
    using reach.r_malloc [OF r3 _ m4] by simp
  have r5: "reach (2 ^ 64 - 1) h5 (((\<lambda>p. None)(4168 := Some 16, 4192 := Some 16))(4168 := None))"
    by (rule reach.r_free [OF r4 _ f5, of 16]) simp
  have w: "heap_walk h5 (heap_listp h5) = Some [4160, 4168, 4216]"
    by (simp add: d ev cong: evc)
  have g: "GET_ALLOC h5 (HDRP 4168) = 0" "GET_ALLOC h5 (HDRP 4216) = 0"
    by (simp_all add: d ev cong: evc)
  have c: "\<not> coalesced h5"
    unfolding coalesced_def w using g by simp
  from m2 m3 m4 f5 r5 w g c show ?thesis by blast
qed

section \<open>The lists are doubly linked (claim C10)\<close>

text \<open>
  Claim C10, as amended. In every heap that a program finds before or after a call, after
  a successful \<open>mm_init\<close> on a region of less than \<open>2 ^ 32\<close> bytes and any sequence of calls
  whose requests are of at most \<open>2 ^ 64 - 16\<close> bytes each, every list is doubly linked:
  its head has no predecessor, and for every member \<open>b\<close>, the predecessor of the
  successor of \<open>b\<close> is \<open>b\<close> and the successor of the predecessor of \<open>b\<close> is \<open>b\<close>, where
  these are not null.
\<close>

theorem C10_linked:
  assumes "reach S h L" and "S \<le> 2 ^ 64 - 16"
  shows "linked h"
proof -
  from reach_ok [OF assms] obtain bs fl where "ginv h bs fl" unfolding heap_ok_def by blast
  then have "winv h bs fl" by (simp add: ginv_def)
  then show ?thesis by (rule linked_winv)
qed

theorem C10_linked_witness:
  "reach 24 (the (free 4168 (snd (the (malloc 24 heap1))))) (\<lambda>p. None)
   \<and> (24 :: nat) \<le> 2 ^ 64 - 16 \<and> linked (the (free 4168 (snd (the (malloc 24 heap1)))))"
proof -
  define h2 where "h2 = snd (the (malloc 24 heap1))"
  define h3 where "h3 = the (free 4168 h2)"
  have m2: "malloc 24 heap1 = Some (4168, h2)"
    by (simp add: h2_def heap1_def ev cong: evc)
  have f3: "free 4168 h2 = Some h3"
    by (simp add: h3_def h2_def heap1_def ev cong: evc)
  have r2: "reach 24 h2 ((\<lambda>p. None)(4168 := Some 24))"
    using reach.r_malloc [OF reach_heap1 _ m2, of 24] by simp
  have "((\<lambda>p. None)(4168 := Some 24 :: nat option))(4168 := None) = (\<lambda>p. None)" by auto
  with reach.r_free [OF r2 _ f3, of 24] have r3: "reach 24 h3 (\<lambda>p. None)" by simp
  from C10_linked [OF r3] r3 show ?thesis unfolding h3_def h2_def by simp
qed

text \<open>
  Claim C10 as stated fails. After \<open>malloc (2 ^ 64 - 8)\<close> (adjusted size 0) the footer of
  the prologue reads size 0, and the block at 4168 is handed out a second time. When it
  is freed, \<open>coalesce\<close> takes the block itself for its free predecessor, doubles its size
  to 48 and writes the footer of the doubled block at 4208, which is the predecessor
  field of the free block at 4208, the head of the list of class 6: the head now has
  itself as predecessor.
\<close>

theorem C10_counterexample:
  "\<exists>h2 h3 h4 h5 L. malloc (2 ^ 64 - 8) heap1 = Some (4168, h2)
     \<and> malloc 16 h2 = Some (4168, h3) \<and> malloc 8 h3 = Some (4192, h4)
     \<and> free 4168 h4 = Some h5 \<and> reach (2 ^ 64 - 1) h5 L
     \<and> GET_HEAD h5 (list_head h5 6) = 4208 \<and> GET_PRED h5 4208 = 4208 \<and> \<not> linked h5"
proof -
  define h2 where "h2 = snd (the (malloc (2 ^ 64 - 8) heap1))"
  define h3 where "h3 = snd (the (malloc 16 h2))"
  define h4 where "h4 = snd (the (malloc 8 h3))"
  define h5 where "h5 = the (free 4168 h4)"
  note d = h5_def h4_def h3_def h2_def heap1_def
  have m2: "malloc (2 ^ 64 - 8) heap1 = Some (4168, h2)"
    by (simp add: h2_def heap1_def ev cong: evc)
  have m3: "malloc 16 h2 = Some (4168, h3)"
    by (simp add: h3_def h2_def heap1_def ev cong: evc)
  have m4: "malloc 8 h3 = Some (4192, h4)"
    by (simp add: h4_def h3_def h2_def heap1_def ev cong: evc)
  have f5: "free 4168 h4 = Some h5"
    by (simp add: d ev cong: evc)
  have r2: "reach (2 ^ 64 - 1) h2 ((\<lambda>p. None)(4168 := Some (2 ^ 64 - 8)))"
    using reach.r_malloc [OF reach_heap1 _ m2, of "2 ^ 64 - 1"] by simp
  have r3: "reach (2 ^ 64 - 1) h3 ((\<lambda>p. None)(4168 := Some 16))"
    using reach.r_malloc [OF r2 _ m3] by simp
  have r4: "reach (2 ^ 64 - 1) h4 ((\<lambda>p. None)(4168 := Some 16, 4192 := Some 8))"
    using reach.r_malloc [OF r3 _ m4] by simp
  have r5: "reach (2 ^ 64 - 1) h5 (((\<lambda>p. None)(4168 := Some 16, 4192 := Some 8))(4168 := None))"
    by (rule reach.r_free [OF r4 _ f5, of 16]) simp
  have g: "GET_HEAD h5 (list_head h5 6) = 4208" "GET_PRED h5 4208 = 4208"
    by (simp_all add: d ev cong: evc)
  have "\<not> linked_list h5 (GET_HEAD h5 (list_head h5 6))"
    unfolding g linked_list_def by simp
  moreover have "(6 :: nat) \<in> set [0 ..< CLASS_CNT]" by simp
  ultimately have c: "\<not> linked h5" unfolding linked_def list_all_iff by blast
  from m2 m3 m4 f5 r5 g c show ?thesis by blast
qed

section \<open>The adjusted block size (claim C5)\<close>




end
